theory Spec2Isabelle
  imports Complex_Main "HOL-Library.Word" "HOL-Library.AList" "HOL-Library.Log_Nat"
begin

unbundle bit_operations_syntax

section \<open>Pattern Detector\<close>

text \<open>
  A \<^verbatim>\<open>std::string\<close> is a list of bytes (\<^typ>\<open>string\<close>). The source reads
  \<^verbatim>\<open>pin[i] - '0'\<close> as an \<^verbatim>\<open>int\<close>. Whether plain \<^verbatim>\<open>char\<close> is signed is left to
  the platform; it is taken signed here, as g++ has it on x86-64, so a byte above 127
  reads as a negative number. On the digits \<open>0\<close> to \<open>9\<close> both readings agree.
\<close>

definition char_int :: "char \<Rightarrow> int" where
  "char_int c = (if (of_char c :: int) < 128 then of_char c else of_char c - 256)"

definition isdigit :: "char \<Rightarrow> bool" where
  "isdigit c = (48 \<le> (of_char c :: nat) \<and> (of_char c :: nat) \<le> 57)"

text \<open>
  \<^verbatim>\<open>
  bool isSequential(const string &pin) {
      bool asc = true, desc = true;
      for (size_t i = 1; i < pin.size(); ++i) {
          int prev = pin[i-1] - '0';
          int cur = pin[i] - '0';
          if (cur != prev + 1) asc = false;
          if (cur != prev - 1) desc = false;
      }
      return asc || desc;
  }
  \<close>
  The loop is a function of the index and the two flags.
\<close>

function isSequential_loop :: "string \<Rightarrow> nat \<Rightarrow> bool \<Rightarrow> bool \<Rightarrow> bool" where
  "isSequential_loop p i asc desc =
     (if i < length p then
        isSequential_loop p (i + 1)
          (if char_int (p ! i) - char_int CHR ''0'' \<noteq> (char_int (p ! (i - 1)) - char_int CHR ''0'') + 1
           then False else asc)
          (if char_int (p ! i) - char_int CHR ''0'' \<noteq> (char_int (p ! (i - 1)) - char_int CHR ''0'') - 1
           then False else desc)
      else asc \<or> desc)"
  by pat_completeness auto
termination
  by (relation "measure (\<lambda>(p, i, asc, desc). length p - i)") auto

declare isSequential_loop.simps [simp del]

definition isSequential :: "string \<Rightarrow> bool" where
  "isSequential p = isSequential_loop p 1 True True"

text \<open>
  \<^verbatim>\<open>
  bool hasTooManyRepeats(const string &pin) {
      int sameCount = 1;
      for (size_t i = 1; i < pin.size(); ++i) {
          if (pin[i] == pin[i-1]) {
              sameCount++;
              if (sameCount >= 3) return true;
          } else sameCount = 1;
      }
      bool allSame = true;
      for (char c : pin) if (c != pin[0]) { allSame = false; break; }
      return allSame;
  }
  \<close>
  \<open>repeats_loop\<close> is the first loop: \<open>True\<close> when it returns from inside, \<open>False\<close>
  when it runs to the end. \<open>allSame_loop\<close> is the second loop over the characters that
  are left; \<^verbatim>\<open>pin[0]\<close> is read only inside its body, so never on an empty string.
\<close>

function repeats_loop :: "string \<Rightarrow> nat \<Rightarrow> int \<Rightarrow> bool" where
  "repeats_loop p i sameCount =
     (if i < length p then
        (if p ! i = p ! (i - 1) then
           (if sameCount + 1 \<ge> 3 then True else repeats_loop p (i + 1) (sameCount + 1))
         else repeats_loop p (i + 1) 1)
      else False)"
  by pat_completeness auto
termination
  by (relation "measure (\<lambda>(p, i, sameCount). length p - i)") auto

declare repeats_loop.simps [simp del]

fun allSame_loop :: "string \<Rightarrow> string \<Rightarrow> bool" where
  "allSame_loop p [] = True"
| "allSame_loop p (c # cs) = (if c \<noteq> p ! 0 then False else allSame_loop p cs)"

definition hasTooManyRepeats :: "string \<Rightarrow> bool" where
  "hasTooManyRepeats p = (if repeats_loop p 1 1 then True else allSame_loop p p)"

section \<open>PIN Generator\<close>

text \<open>
  \<^verbatim>\<open>
  string generatePin(int length = DEFAULT_PIN_LENGTH) {
      uniform_int_distribution<int> digitDist(0, 9);
      string pin;
      for (;;) {
          pin.clear();
          for (int i = 0; i < length; ++i) pin.push_back(char('0' + digitDist(rng)));
          if (isSequential(pin)) continue;
          if (hasTooManyRepeats(pin)) continue;
          static const unordered_set<string> banned = { ... };
          if (banned.count(pin)) continue;
          return pin;
      }
  }
  \<close>
  The global generator \<^verbatim>\<open>rng\<close> is a supply of draws: \<open>src k\<close> is what the
  \<open>k\<close>-th call of \<^verbatim>\<open>digitDist(rng)\<close> returns, and the generator's state is the
  number \<open>k\<close> of draws made so far. \<open>draw_digits\<close> is the inner loop that fills
  \<open>pin\<close>. The loop has no bound in the source, so the
  function is partial: \<open>None\<close> is the run that never returns.
\<close>

definition DEFAULT_PIN_LENGTH :: int where
  "DEFAULT_PIN_LENGTH = 4"

definition banned :: "string list" where
  "banned = [''1234'', ''0000'', ''1111'', ''1212'', ''7777'', ''1004'', ''2000'', ''4321'', ''2580'']"

fun draw_digits :: "(nat \<Rightarrow> nat) \<Rightarrow> nat \<Rightarrow> nat \<Rightarrow> string" where
  "draw_digits src k 0 = []"
| "draw_digits src k (Suc n) = char_of (of_char CHR ''0'' + src k) # draw_digits src (Suc k) n"

definition draw_pin :: "(nat \<Rightarrow> nat) \<Rightarrow> nat \<Rightarrow> int \<Rightarrow> string" where
  "draw_pin src k len = draw_digits src k (nat len)"

partial_function (option) generatePin :: "(nat \<Rightarrow> nat) \<Rightarrow> nat \<Rightarrow> int \<Rightarrow> (string \<times> nat) option" where
  "generatePin src k len =
     (if isSequential (draw_pin src k len) then generatePin src (k + nat len) len
      else if hasTooManyRepeats (draw_pin src k len) then generatePin src (k + nat len) len
      else if draw_pin src k len \<in> set banned then generatePin src (k + nat len) len
      else Some (draw_pin src k len, k + nat len))"

section \<open>Obfuscation Codec\<close>

text \<open>
  \<^verbatim>\<open>
  string obfuscate(const string &s) {
      const string key = "sachin_key_v1";
      string out(s.size(), '\0');
      for (size_t i = 0; i < s.size(); ++i) out[i] = s[i] ^ key[i % key.size()];
      return out;
  }
  string deobfuscate(const string &s) { return obfuscate(s); }
  \<close>
  \<open>obfuscate_from i\<close> is the loop from index \<open>i\<close> on, over the characters that are
  left: each is replaced by its exclusive or with the key byte of its index.
\<close>

definition key :: string where
  "key = ''sachin_key_v1''"

definition xor_char :: "char \<Rightarrow> char \<Rightarrow> char" where
  "xor_char a b = char_of ((of_char a :: nat) XOR of_char b)"

fun obfuscate_from :: "nat \<Rightarrow> string \<Rightarrow> string" where
  "obfuscate_from i [] = []"
| "obfuscate_from i (c # cs) = xor_char c (key ! (i mod length key)) # obfuscate_from (i + 1) cs"

definition obfuscate :: "string \<Rightarrow> string" where
  "obfuscate s = obfuscate_from 0 s"

definition deobfuscate :: "string \<Rightarrow> string" where
  "deobfuscate s = obfuscate s"

section \<open>Library functions the record codec calls\<close>

text \<open>
  The record codec prints a \<^verbatim>\<open>double\<close> and an \<^verbatim>\<open>int\<close> into a stream and reads
  them back with \<^verbatim>\<open>std::stod\<close> and \<^verbatim>\<open>std::stoi\<close>. These are functions of the C++
  library (libstdc++ on glibc, C locale), modelled here as far as the codec depends on
  them.

  A \<^verbatim>\<open>double\<close> is its exact value: a finite binary64 number is the rational it
  denotes (negative zero is not told apart from zero), beside the two infinities and
  one NaN. \<open>ilog2 a\<close> is the binary exponent of a positive \<open>a\<close> (the \<open>e\<close> with
  \<open>2 ^ e \<le> a < 2 ^ (e + 1)\<close>). \<open>round_binary64\<close> rounds a rational to the nearest
  binary64 number, ties to even, and reports the \<^verbatim>\<open>ERANGE\<close> cases of \<^verbatim>\<open>strtod\<close>
  (a result of exponent 1024 or more, and an inexact result below the normal range),
  which \<^verbatim>\<open>std::stod\<close> turns into \<^verbatim>\<open>std::out_of_range\<close>.
\<close>

datatype double = Finite rat | Infinity bool | NaN

datatype exn = invalid_argument | out_of_range

definition round_half_even :: "rat \<Rightarrow> int" where
  "round_half_even x =
     (if x - of_int \<lfloor>x\<rfloor> < 1 / 2 then \<lfloor>x\<rfloor>
      else if 1 / 2 < x - of_int \<lfloor>x\<rfloor> then \<lfloor>x\<rfloor> + 1
      else if even \<lfloor>x\<rfloor> then \<lfloor>x\<rfloor> else \<lfloor>x\<rfloor> + 1)"

definition ilog2 :: "rat \<Rightarrow> int" where
  "ilog2 a =
     (let e = bitlen (fst (quotient_of a)) - bitlen (snd (quotient_of a))
      in if 2 powi e \<le> a then e else e - 1)"

definition round_to :: "int \<Rightarrow> rat \<Rightarrow> rat" where
  "round_to k a = of_int (round_half_even (a / 2 powi k)) * 2 powi k"

definition round_binary64 :: "rat \<Rightarrow> exn + double" where
  "round_binary64 q =
     (if q = 0 then Inr (Finite 0)
      else
        let a = \<bar>q\<bar>;
            e = ilog2 a;
            r = round_to (max (e - 52) (- 1074)) a
        in if 1024 \<le> ilog2 r then Inl out_of_range
           else if ilog2 (round_to (e - 52) a) < - 1022 \<and> r \<noteq> a then Inl out_of_range
           else Inr (Finite (if q < 0 then - r else r)))"

definition isspace :: "char \<Rightarrow> bool" where
  "isspace c = ((of_char c :: nat) = 32 \<or> (9 \<le> (of_char c :: nat) \<and> (of_char c :: nat) \<le> 13))"

definition isxdigit :: "char \<Rightarrow> bool" where
  "isxdigit c =
     (isdigit c \<or> (65 \<le> (of_char c :: nat) \<and> (of_char c :: nat) \<le> 70)
        \<or> (97 \<le> (of_char c :: nat) \<and> (of_char c :: nat) \<le> 102))"

definition tolower :: "char \<Rightarrow> char" where
  "tolower c =
     (if 65 \<le> (of_char c :: nat) \<and> (of_char c :: nat) \<le> 90
      then char_of ((of_char c :: nat) + 32) else c)"

definition digit_char :: "int \<Rightarrow> char" where
  "digit_char d = char_of (48 + d)"

definition digits_val :: "string \<Rightarrow> int" where
  "digits_val ds = foldl (\<lambda>a c. 10 * a + (of_char c - 48)) 0 ds"

definition xdigit_val :: "char \<Rightarrow> int" where
  "xdigit_val c = (if isdigit c then of_char c - 48 else of_char (tolower c) - 87)"

definition xdigits_val :: "string \<Rightarrow> int" where
  "xdigits_val ds = foldl (\<lambda>a c. 16 * a + xdigit_val c) 0 ds"

text \<open>An optional sign in front of a number: whether it is a minus, and what follows it.\<close>

definition is_minus :: "string \<Rightarrow> bool" where
  "is_minus s = (case s of [] \<Rightarrow> False | c # r \<Rightarrow> c = CHR ''-'')"

definition skip_sign :: "string \<Rightarrow> string" where
  "skip_sign s = (case s of [] \<Rightarrow> [] | c # r \<Rightarrow> if c = CHR ''-'' \<or> c = CHR ''+'' then r else s)"

text \<open>
  The exponent of a floating literal: the marker (\<open>e\<close> or \<open>p\<close>, either case), an
  optional sign and at least one digit; anything else is no exponent.
\<close>

definition exponent_part :: "char \<Rightarrow> string \<Rightarrow> int" where
  "exponent_part marker s =
     (case s of
        [] \<Rightarrow> 0
      | c # r \<Rightarrow>
          if tolower c \<noteq> marker \<or> takeWhile isdigit (skip_sign r) = [] then 0
          else if is_minus r then - digits_val (takeWhile isdigit (skip_sign r))
          else digits_val (takeWhile isdigit (skip_sign r)))"

text \<open>The digits after a radix point, and what follows the fraction.\<close>

definition fraction_digits :: "(char \<Rightarrow> bool) \<Rightarrow> string \<Rightarrow> string" where
  "fraction_digits dig s =
     (case s of [] \<Rightarrow> [] | c # r \<Rightarrow> if c = CHR ''.'' then takeWhile dig r else [])"

definition after_fraction :: "(char \<Rightarrow> bool) \<Rightarrow> string \<Rightarrow> string" where
  "after_fraction dig s =
     (case s of [] \<Rightarrow> [] | c # r \<Rightarrow> if c = CHR ''.'' then dropWhile dig r else s)"

definition dec_value :: "string \<Rightarrow> rat option" where
  "dec_value s =
     (let ip = takeWhile isdigit s;
          fp = fraction_digits isdigit (dropWhile isdigit s);
          ex = exponent_part CHR ''e'' (after_fraction isdigit (dropWhile isdigit s))
      in if ip = [] \<and> fp = [] then None
         else Some (of_int (digits_val (ip @ fp)) * 10 powi (ex - int (length fp))))"

definition is_hex_float :: "string \<Rightarrow> bool" where
  "is_hex_float s =
     (case s of
        z # x # c # r \<Rightarrow>
          z = CHR ''0'' \<and> tolower x = CHR ''x''
          \<and> (isxdigit c \<or> (c = CHR ''.'' \<and> (case r of [] \<Rightarrow> False | d # r' \<Rightarrow> isxdigit d)))
      | _ \<Rightarrow> False)"

definition hex_value :: "string \<Rightarrow> rat" where
  "hex_value s =
     (let ip = takeWhile isxdigit s;
          fp = fraction_digits isxdigit (dropWhile isxdigit s);
          ex = exponent_part CHR ''p'' (after_fraction isxdigit (dropWhile isxdigit s))
      in of_int (xdigits_val (ip @ fp)) * 2 powi (ex - 4 * int (length fp)))"

text \<open>
  \<^verbatim>\<open>std::stod(str)\<close>: leading white space, an optional sign, then \<^verbatim>\<open>inf\<close>,
  \<^verbatim>\<open>nan\<close>, a hexadecimal or a decimal floating literal; what follows the literal is
  ignored. No literal is \<^verbatim>\<open>std::invalid_argument\<close>.
\<close>

definition stod :: "string \<Rightarrow> exn + double" where
  "stod str =
     (let neg = is_minus (dropWhile isspace str);
          s = skip_sign (dropWhile isspace str)
      in if map tolower (take 3 s) = ''inf'' then Inr (Infinity neg)
         else if map tolower (take 3 s) = ''nan'' then Inr NaN
         else if is_hex_float s
           then round_binary64 (if neg then - hex_value (drop 2 s) else hex_value (drop 2 s))
         else case dec_value s of
                None \<Rightarrow> Inl invalid_argument
              | Some q \<Rightarrow> round_binary64 (if neg then - q else q))"

text \<open>
  \<^verbatim>\<open>std::stoi(str)\<close>: leading white space, an optional sign, decimal digits; no digit
  is \<^verbatim>\<open>std::invalid_argument\<close>, a value outside \<^verbatim>\<open>int\<close> is \<^verbatim>\<open>std::out_of_range\<close>.
  An \<^verbatim>\<open>int\<close> is a 32-bit word read in two's complement.
\<close>

definition stoi :: "string \<Rightarrow> exn + 32 word" where
  "stoi str =
     (let neg = is_minus (dropWhile isspace str);
          ds = takeWhile isdigit (skip_sign (dropWhile isspace str))
      in if ds = [] then Inl invalid_argument
         else if neg \<and> 2 ^ 31 < digits_val ds then Inl out_of_range
         else if \<not> neg \<and> 2 ^ 31 \<le> digits_val ds then Inl out_of_range
         else Inr (if neg then - of_int (digits_val ds) else of_int (digits_val ds)))"

text \<open>
  Stream output: a decimal without sign, an \<^verbatim>\<open>int\<close>, and a \<^verbatim>\<open>double\<close> under
  \<^verbatim>\<open>fixed << setprecision(2)\<close> (correctly rounded, as glibc prints it).
\<close>

function show_unsigned :: "int \<Rightarrow> string" where
  "show_unsigned n =
     (if n < 10 then [digit_char n] else show_unsigned (n div 10) @ [digit_char (n mod 10)])"
  by pat_completeness auto
termination
  by (relation "measure nat") auto

declare show_unsigned.simps [simp del]

definition show_int :: "int \<Rightarrow> string" where
  "show_int i = (if i < 0 then CHR ''-'' # show_unsigned (- i) else show_unsigned i)"

definition show_fixed2 :: "double \<Rightarrow> string" where
  "show_fixed2 d =
     (case d of
        Finite q \<Rightarrow>
          (if q < 0 then [CHR ''-''] else [])
          @ show_unsigned (round_half_even (\<bar>q\<bar> * 100) div 100) @ [CHR ''.'']
          @ [digit_char (round_half_even (\<bar>q\<bar> * 100) mod 100 div 10),
             digit_char (round_half_even (\<bar>q\<bar> * 100) mod 10)]
      | Infinity neg \<Rightarrow> (if neg then ''-inf'' else ''inf'')
      | NaN \<Rightarrow> ''nan'')"

text \<open>
  \<^verbatim>\<open>getline(ss, str, delim)\<close> on a string stream. The stream is its unread
  characters, or \<open>None\<close> once \<^verbatim>\<open>eofbit\<close> or \<^verbatim>\<open>failbit\<close> is set. On a stream that is
  no longer good the call leaves \<open>str\<close> as it was; on a good stream it clears \<open>str\<close>,
  reads up to the delimiter and drops it, and reaching the end sets \<^verbatim>\<open>eofbit\<close>.
\<close>

fun getline :: "string option \<Rightarrow> char \<Rightarrow> string \<Rightarrow> string \<times> string option" where
  "getline None delim str = (str, None)"
| "getline (Some buf) delim str =
     (if delim \<in> set buf
      then (takeWhile (\<lambda>c. c \<noteq> delim) buf, Some (tl (dropWhile (\<lambda>c. c \<noteq> delim) buf)))
      else (buf, None))"

section \<open>Record Codec\<close>

text \<open>
  \<^verbatim>\<open>
  struct User {
      string username;
      string pin;
      double balance = 0.0;
      int wrongAttempts = 0;
      bool locked = false;
      string serialize() const {
          ostringstream oss;
          oss << username << '|' << pin << '|' << fixed << setprecision(2) << balance
              << '|' << wrongAttempts << '|' << (locked ? "1" : "0");
          return obfuscate(oss.str());
      }
      static User deserialize(const string &obf) {
          string s = deobfuscate(obf);
          User u;
          stringstream ss(s);
          string token;
          getline(ss, u.username, '|');
          getline(ss, u.pin, '|');
          getline(ss, token, '|'); u.balance = stod(token);
          getline(ss, token, '|'); u.wrongAttempts = stoi(token);
          getline(ss, token, '|'); u.locked = (token == "1");
          return u;
      }
  };
  \<close>
  An exception of \<^verbatim>\<open>stod\<close> or \<^verbatim>\<open>stoi\<close> leaves \<open>deserialize\<close>: the result is
  \<open>Inl\<close> of it. The one variable \<open>token\<close> is read three times, so each \<open>getline\<close>
  gets the token the one before left.
\<close>

record User =
  username :: string
  pin :: string
  balance :: double
  wrongAttempts :: "32 word"
  locked :: bool

definition serialize :: "User \<Rightarrow> string" where
  "serialize u =
     obfuscate (username u @ ''|'' @ pin u @ ''|'' @ show_fixed2 (balance u) @ ''|''
                @ show_int (sint (wrongAttempts u)) @ ''|'' @ (if locked u then ''1'' else ''0''))"

definition deserialize :: "string \<Rightarrow> exn + User" where
  "deserialize obf =
     (let s = deobfuscate obf;
          (name, ss1) = getline (Some s) CHR ''|'' [];
          (pn, ss2) = getline ss1 CHR ''|'' [];
          (token1, ss3) = getline ss2 CHR ''|'' []
      in case stod token1 of
           Inl e \<Rightarrow> Inl e
         | Inr bal \<Rightarrow>
             (let (token2, ss4) = getline ss3 CHR ''|'' token1
              in (case stoi token2 of
                    Inl e \<Rightarrow> Inl e
                  | Inr wa \<Rightarrow>
                      (let (token3, ss5) = getline ss4 CHR ''|'' token2
                       in Inr \<lparr>username = name, pin = pn, balance = bal, wrongAttempts = wa,
                               locked = (token3 = ''1'')\<rparr>))))"

section \<open>Account Store\<close>

text \<open>
  \<^verbatim>\<open>
  class UserDB {
      unordered_map<string, User> users;
  public:
      void load() {
          users.clear();
          ifstream ifs(DB_FILENAME, ios::binary);
          if (!ifs) return;
          string line;
          while (getline(ifs, line)) {
              if (line.empty()) continue;
              try {
                  User u = User::deserialize(line);
                  users[u.username] = u;
              } catch (...) {
                  // ignore malformed line
              }
          }
      }
      void save() const {
          ofstream ofs(DB_FILENAME, ios::binary | ios::trunc);
          for (const auto &p : users) ofs << p.second.serialize() << '\n';
      }
      bool exists(const string &username) const { return users.find(username) != users.end(); }
      bool updateUser(const User &u) {
          if (!exists(u.username)) return false;
          users[u.username] = u;
          save();
          return true;
      }
  };
  \<close>
  The state the operations share is the map \<open>users\<close>, the bytes of the file
  \<^verbatim>\<open>atm_users.db\<close> (\<open>None\<close> while it does not exist) and the words still unread on
  standard input. The map is an association list with one entry per key: the order of an
  \<^verbatim>\<open>unordered_map\<close> is not fixed by the language, and the list's order stands for
  the one \<open>save\<close> happens to iterate in. Messages written to standard output are left
  out, and the file is taken to be writable.
\<close>

record env =
  users :: "(string \<times> User) list"
  db_file :: "string option"
  cin :: "string list"

text \<open>
  The lines \<^verbatim>\<open>while (getline(ifs, line))\<close> yields: the text is cut at each line
  feed, and a last line without one counts when it is not empty. \<open>cur\<close> is the part of
  the current line read so far.
\<close>

fun file_lines :: "string \<Rightarrow> string \<Rightarrow> string list" where
  "file_lines cur [] = (if cur = [] then [] else [cur])"
| "file_lines cur (c # cs) =
     (if c = CHR 0x0A then cur # file_lines [] cs else file_lines (cur @ [c]) cs)"

fun load_loop :: "(string \<times> User) list \<Rightarrow> string list \<Rightarrow> (string \<times> User) list" where
  "load_loop us [] = us"
| "load_loop us (line # rest) =
     (if line = [] then load_loop us rest
      else case deserialize line of
             Inr u \<Rightarrow> load_loop (AList.update (username u) u us) rest
           | Inl e \<Rightarrow> load_loop us rest)"

definition load :: "env \<Rightarrow> env" where
  "load e =
     (case db_file e of
        None \<Rightarrow> e\<lparr>users := []\<rparr>
      | Some content \<Rightarrow> e\<lparr>users := load_loop [] (file_lines [] content)\<rparr>)"

fun save_loop :: "(string \<times> User) list \<Rightarrow> string" where
  "save_loop [] = []"
| "save_loop (p # ps) = serialize (snd p) @ [CHR 0x0A] @ save_loop ps"

definition save :: "env \<Rightarrow> env" where
  "save e = e\<lparr>db_file := Some (save_loop (users e))\<rparr>"

definition exists :: "env \<Rightarrow> string \<Rightarrow> bool" where
  "exists e name = (map_of (users e) name \<noteq> None)"

definition addUser :: "env \<Rightarrow> User \<Rightarrow> bool \<times> env" where
  "addUser e u =
     (if exists e (username u) then (False, e)
      else (True, save (e\<lparr>users := AList.update (username u) u (users e)\<rparr>)))"

definition updateUser :: "env \<Rightarrow> User \<Rightarrow> bool \<times> env" where
  "updateUser e u =
     (if \<not> exists e (username u) then (False, e)
      else (True, save (e\<lparr>users := AList.update (username u) u (users e)\<rparr>)))"

definition getUser :: "env \<Rightarrow> string \<Rightarrow> User option" where
  "getUser e name = map_of (users e) name"

section \<open>Authentication and Lockout\<close>

text \<open>
  \<^verbatim>\<open>
  bool authenticate(UserDB &db, User &user) {
      if (user.locked) { ...; return false; }
      string entered;
      cin >> entered;
      if (entered == user.pin) {
          user.wrongAttempts = 0;
          db.updateUser(user);
          return true;
      } else {
          user.wrongAttempts += 1;
          if (user.wrongAttempts >= MAX_WRONG_ATTEMPTS) user.locked = true;
          db.updateUser(user);
          return false;
      }
  }
  \<close>
  \<^verbatim>\<open>cin >> entered\<close> takes the next word of the input; at the end of the input it
  leaves \<open>entered\<close> empty. The counter is an \<^verbatim>\<open>int\<close>: a 32-bit word, compared as
  a signed number, whose increment wraps around (the step from the largest
  \<^verbatim>\<open>int\<close> is undefined in C++). The function returns its result, the new state and
  the record its reference parameter \<open>user\<close> then holds.
\<close>

definition MAX_WRONG_ATTEMPTS :: "32 word" where
  "MAX_WRONG_ATTEMPTS = 3"

definition read_word :: "env \<Rightarrow> string \<times> env" where
  "read_word e = (case cin e of [] \<Rightarrow> ([], e) | w # ws \<Rightarrow> (w, e\<lparr>cin := ws\<rparr>))"

definition authenticate :: "env \<Rightarrow> User \<Rightarrow> bool \<times> env \<times> User" where
  "authenticate e user =
     (if locked user then (False, e, user)
      else
        let (entered, e1) = read_word e in
        if entered = pin user then
          (let user1 = user\<lparr>wrongAttempts := 0\<rparr>
           in (True, snd (updateUser e1 user1), user1))
        else
          (let user1 = user\<lparr>wrongAttempts := wrongAttempts user + 1\<rparr>;
               user2 = (if MAX_WRONG_ATTEMPTS \<le>s wrongAttempts user1
                        then user1\<lparr>locked := True\<rparr> else user1)
           in (False, snd (updateUser e1 user2), user2)))"

text \<open>
  \<^verbatim>\<open>
  void changePin(UserDB &db, User &user) {
      if (!authenticate(db, user)) return;
      int length = user.pin.size();
      string newPin; cin >> newPin;
      if ((int)newPin.size() != length) { cout << "Invalid length.\n"; return; }
      if (isSequential(newPin) || hasTooManyRepeats(newPin)) {
          cout << "New PIN is weak; choose a less trivial PIN.\n"; return;
      }
      user.pin = newPin;
      user.wrongAttempts = 0; // reset on change
      db.updateUser(user);
      cout << "PIN changed successfully.\n";
  }
  \<close>
  The function returns nothing; the outcome names the return it leaves by. Lengths
  are compared as numbers (a string is far shorter than the \<^verbatim>\<open>int\<close> range).
\<close>

datatype outcome = NotAuthenticated | InvalidLength | WeakPin | Changed

definition changePin :: "env \<Rightarrow> User \<Rightarrow> outcome \<times> env \<times> User" where
  "changePin e user =
     (case authenticate e user of
        (ok, e1, user1) \<Rightarrow>
          if \<not> ok then (NotAuthenticated, e1, user1)
          else
            let (newPin, e2) = read_word e1 in
            if length newPin \<noteq> length (pin user1) then (InvalidLength, e2, user1)
            else if isSequential newPin \<or> hasTooManyRepeats newPin then (WeakPin, e2, user1)
            else
              (let user2 = user1\<lparr>pin := newPin, wrongAttempts := 0\<rparr>
               in (Changed, snd (updateUser e2 user2), user2)))"

section \<open>The properties of the specification, in its own words\<close>

text \<open>
  What the specification says of the Pattern Detector, to compare the loops with: a
  string is ascending (descending) by one when every adjacent pair is; it has a run of
  three when three consecutive characters are equal; it is all identical when every
  character is the first one. \<open>ascending_run first n\<close> is the digit string whose
  \<open>i\<close>-th digit is \<open>first + i\<close>, and \<open>descending_run\<close> the one with \<open>first - i\<close>.
\<close>

definition digit_string :: "string \<Rightarrow> bool" where
  "digit_string p = list_all isdigit p"

definition ascending_by_one :: "string \<Rightarrow> bool" where
  "ascending_by_one p =
     (\<forall>i. Suc i < length p \<longrightarrow> char_int (p ! Suc i) = char_int (p ! i) + 1)"

definition descending_by_one :: "string \<Rightarrow> bool" where
  "descending_by_one p =
     (\<forall>i. Suc i < length p \<longrightarrow> char_int (p ! Suc i) = char_int (p ! i) - 1)"

fun ascending_run :: "int \<Rightarrow> nat \<Rightarrow> string" where
  "ascending_run first 0 = []"
| "ascending_run first (Suc n) = digit_char first # ascending_run (first + 1) n"

fun descending_run :: "int \<Rightarrow> nat \<Rightarrow> string" where
  "descending_run first 0 = []"
| "descending_run first (Suc n) = digit_char first # descending_run (first - 1) n"

definition has_run_of_three :: "string \<Rightarrow> bool" where
  "has_run_of_three p =
     (\<exists>i. i + 2 < length p \<and> p ! i = p ! (i + 1) \<and> p ! (i + 1) = p ! (i + 2))"

definition all_identical :: "string \<Rightarrow> bool" where
  "all_identical p = (\<forall>c \<in> set p. c = p ! 0)"

text \<open>A candidate PIN is acceptable when it passes the three checks of the generator.\<close>

definition acceptable :: "string \<Rightarrow> bool" where
  "acceptable p = (\<not> isSequential p \<and> \<not> hasTooManyRepeats p \<and> p \<notin> set banned)"


text \<open>
  A valid account, as the data model has it: a name that is not empty and holds no
  delimiter, a PIN of digits, a balance and a counter that are not negative.
  \<open>field_count\<close> is the number of \<open>|\<close>-separated fields of a line, and \<open>file_of\<close> the
  text of a file with the given lines, each ended by a line feed.
\<close>

definition non_negative :: "double \<Rightarrow> bool" where
  "non_negative d = (case d of Finite q \<Rightarrow> 0 \<le> q | Infinity neg \<Rightarrow> \<not> neg | NaN \<Rightarrow> False)"

definition valid_account :: "User \<Rightarrow> bool" where
  "valid_account u =
     (username u \<noteq> [] \<and> CHR ''|'' \<notin> set (username u) \<and> digit_string (pin u)
      \<and> non_negative (balance u) \<and> 0 \<le> sint (wrongAttempts u))"

definition field_count :: "string \<Rightarrow> nat" where
  "field_count s = Suc (length (filter (\<lambda>c. c = CHR ''|'') s))"

fun file_of :: "string list \<Rightarrow> string" where
  "file_of [] = []"
| "file_of (l # ls) = l @ CHR 0x0A # file_of ls"

text \<open>An account as \<^verbatim>\<open>createAccount\<close> sets it up: a balance of 1000, no failure, not
  locked.\<close>

definition fresh_account :: "string \<Rightarrow> string \<Rightarrow> User" where
  "fresh_account name p =
     \<lparr>username = name, pin = p, balance = Finite 1000, wrongAttempts = 0, locked = False\<rparr>"

section \<open>Pattern Detector: what the loops compute\<close>

lemma all_from_split:
  fixes i n :: nat
  assumes "i < n"
  shows "(\<forall>j. i \<le> j \<and> j < n \<longrightarrow> P j) = (P i \<and> (\<forall>j. i + 1 \<le> j \<and> j < n \<longrightarrow> P j))"
proof -
  have "\<And>j. (i \<le> j) = (j = i \<or> i + 1 \<le> j)" by auto
  then show ?thesis using assms by auto
qed

lemma ex_from_split:
  fixes i n :: nat
  assumes "i < n"
  shows "(\<exists>j. i \<le> j \<and> j < n \<and> P j) = (P i \<or> (\<exists>j. i + 1 \<le> j \<and> j < n \<and> P j))"
proof -
  have "\<And>j. (i \<le> j) = (j = i \<or> i + 1 \<le> j)" by auto
  then show ?thesis using assms by auto
qed

lemma isSequential_loop_char:
  "1 \<le> i \<Longrightarrow> isSequential_loop p i asc desc =
     ((asc \<and> (\<forall>j. i \<le> j \<and> j < length p \<longrightarrow> char_int (p ! j) = char_int (p ! (j - 1)) + 1))
    \<or> (desc \<and> (\<forall>j. i \<le> j \<and> j < length p \<longrightarrow> char_int (p ! j) = char_int (p ! (j - 1)) - 1)))"
proof (induction p i asc desc rule: isSequential_loop.induct)
  case (1 p i asc desc)
  show ?case
  proof (cases "i < length p")
    case False
    then show ?thesis
      by (subst isSequential_loop.simps) auto
  next
    case True
    have IH: "isSequential_loop p (i + 1) a d =
       ((a \<and> (\<forall>j. i + 1 \<le> j \<and> j < length p \<longrightarrow> char_int (p ! j) = char_int (p ! (j - 1)) + 1))
      \<or> (d \<and> (\<forall>j. i + 1 \<le> j \<and> j < length p \<longrightarrow> char_int (p ! j) = char_int (p ! (j - 1)) - 1)))"
      if "a = (if char_int (p ! i) - char_int CHR ''0'' \<noteq> (char_int (p ! (i - 1)) - char_int CHR ''0'') + 1
               then False else asc)"
         "d = (if char_int (p ! i) - char_int CHR ''0'' \<noteq> (char_int (p ! (i - 1)) - char_int CHR ''0'') - 1
               then False else desc)" for a d
      using "1.IH"[OF True] "1.prems" that by simp
    show ?thesis
      apply (subst isSequential_loop.simps)
      apply (simp only: True if_True IH[OF refl refl])
      apply (subst all_from_split[OF True, of "\<lambda>j. char_int (p ! j) = char_int (p ! (j - 1)) + 1"])
      apply (subst all_from_split[OF True, of "\<lambda>j. char_int (p ! j) = char_int (p ! (j - 1)) - 1"])
      by auto
  qed
qed

lemma adjacent_shift:
  "(\<forall>j::nat. 1 \<le> j \<and> j < n \<longrightarrow> P j (j - 1)) = (\<forall>i. Suc i < n \<longrightarrow> P (Suc i) i)"
proof
  assume a: "\<forall>j. 1 \<le> j \<and> j < n \<longrightarrow> P j (j - 1)"
  show "\<forall>i. Suc i < n \<longrightarrow> P (Suc i) i"
  proof (intro allI impI)
    fix i assume "Suc i < n"
    with a[rule_format, of "Suc i"] show "P (Suc i) i" by simp
  qed
next
  assume a: "\<forall>i. Suc i < n \<longrightarrow> P (Suc i) i"
  show "\<forall>j. 1 \<le> j \<and> j < n \<longrightarrow> P j (j - 1)"
  proof (intro allI impI)
    fix j assume j: "1 \<le> j \<and> j < n"
    then obtain i where "j = Suc i" by (cases j) auto
    with a[rule_format, of i] j show "P j (j - 1)" by simp
  qed
qed

lemma isSequential_char: "isSequential p = (ascending_by_one p \<or> descending_by_one p)"
  unfolding isSequential_def ascending_by_one_def descending_by_one_def
  apply (subst isSequential_loop_char, simp)
  apply (simp only: adjacent_shift[of _ "\<lambda>a b. char_int (p ! a) = char_int (p ! b) + 1"]
                    adjacent_shift[of _ "\<lambda>a b. char_int (p ! a) = char_int (p ! b) - 1"])
  by simp

lemma char_int_digit_char: "0 \<le> d \<Longrightarrow> d < 80 \<Longrightarrow> char_int (digit_char d) = 48 + d"
  by (simp add: char_int_def digit_char_def)

lemma isdigit_digit_char: "0 \<le> d \<Longrightarrow> d \<le> 9 \<Longrightarrow> isdigit (digit_char d)"
proof -
  assume d: "0 \<le> d" "d \<le> 9"
  have "(of_char (digit_char d) :: int) = 48 + d"
    using d by (simp add: digit_char_def)
  moreover have "(of_char (digit_char d) :: int) = int (of_char (digit_char d))"
    by (simp add: of_nat_of_char)
  ultimately have "int (of_char (digit_char d)) = 48 + d" by simp
  with d show ?thesis unfolding isdigit_def by linarith
qed

lemma ascending_run_nth:
  "length (ascending_run first n) = n"
  "i < n \<Longrightarrow> ascending_run first n ! i = digit_char (first + int i)"
proof -
  show "length (ascending_run first n) = n"
    by (induction n arbitrary: first) auto
  show "i < n \<Longrightarrow> ascending_run first n ! i = digit_char (first + int i)"
  proof (induction n arbitrary: first i)
    case 0
    then show ?case by simp
  next
    case (Suc n)
    then show ?case by (cases i) (auto simp: algebra_simps)
  qed
qed

lemma descending_run_nth:
  "length (descending_run first n) = n"
  "i < n \<Longrightarrow> descending_run first n ! i = digit_char (first - int i)"
proof -
  show "length (descending_run first n) = n"
    by (induction n arbitrary: first) auto
  show "i < n \<Longrightarrow> descending_run first n ! i = digit_char (first - int i)"
  proof (induction n arbitrary: first i)
    case 0
    then show ?case by simp
  next
    case (Suc n)
    then show ?case by (cases i) (auto simp: algebra_simps)
  qed
qed

lemma ascending_run_sequential:
  assumes "0 \<le> first" "first + int n \<le> 10"
  shows "ascending_by_one (ascending_run first n)"
  unfolding ascending_by_one_def
proof (intro allI impI)
  fix i assume "Suc i < length (ascending_run first n)"
  then have i: "Suc i < n" by (simp add: ascending_run_nth)
  with assms have "0 \<le> first + int (Suc i)" "first + int (Suc i) < 80"
    and "0 \<le> first + int i" "first + int i < 80"
    by linarith+
  then have "char_int (digit_char (first + int (Suc i))) = 48 + (first + int (Suc i))"
    and "char_int (digit_char (first + int i)) = 48 + (first + int i)"
    by (simp_all only: char_int_digit_char)
  moreover have "ascending_run first n ! Suc i = digit_char (first + int (Suc i))"
    and "ascending_run first n ! i = digit_char (first + int i)"
    using i by (simp_all add: ascending_run_nth)
  ultimately show "char_int (ascending_run first n ! Suc i) = char_int (ascending_run first n ! i) + 1"
    by simp
qed

lemma descending_run_sequential:
  assumes "first \<le> 9" "int n \<le> first + 1"
  shows "descending_by_one (descending_run first n)"
  unfolding descending_by_one_def
proof (intro allI impI)
  fix i assume "Suc i < length (descending_run first n)"
  then have i: "Suc i < n" by (simp add: descending_run_nth)
  with assms have "0 \<le> first - int (Suc i)" "first - int (Suc i) < 80"
    and "0 \<le> first - int i" "first - int i < 80"
    by linarith+
  then have "char_int (digit_char (first - int (Suc i))) = 48 + (first - int (Suc i))"
    and "char_int (digit_char (first - int i)) = 48 + (first - int i)"
    by (simp_all only: char_int_digit_char)
  moreover have "descending_run first n ! Suc i = digit_char (first - int (Suc i))"
    and "descending_run first n ! i = digit_char (first - int i)"
    using i by (simp_all add: descending_run_nth)
  ultimately show "char_int (descending_run first n ! Suc i) = char_int (descending_run first n ! i) - 1"
    by simp
qed

lemma ascending_run_digits:
  "0 \<le> first \<Longrightarrow> first + int n \<le> 10 \<Longrightarrow> digit_string (ascending_run first n)"
  unfolding digit_string_def
  by (induction n arbitrary: first) (auto intro!: isdigit_digit_char)

lemma descending_run_digits:
  "first \<le> 9 \<Longrightarrow> int n \<le> first + 1 \<Longrightarrow> digit_string (descending_run first n)"
  unfolding digit_string_def
  by (induction n arbitrary: first) (auto intro!: isdigit_digit_char)

lemma repeats_loop_char:
  "1 \<le> i \<Longrightarrow> sc = (if 2 \<le> i \<and> p ! (i - 1) = p ! (i - 2) then 2 else 1) \<Longrightarrow>
   repeats_loop p i sc =
     (\<exists>j. i \<le> j \<and> j < length p \<and> 2 \<le> j \<and> p ! j = p ! (j - 1) \<and> p ! (j - 1) = p ! (j - 2))"
proof (induction p i sc rule: repeats_loop.induct)
  case (1 p i sc)
  let ?run = "\<lambda>j. 2 \<le> j \<and> p ! j = p ! (j - 1) \<and> p ! (j - 1) = p ! (j - 2)"
  show ?case
  proof (cases "i < length p")
    case False
    then show ?thesis by (subst repeats_loop.simps) auto
  next
    case True
    note split = ex_from_split[OF True, of ?run]
    show ?thesis
    proof (cases "p ! i = p ! (i - 1)")
      case eq: True
      show ?thesis
      proof (cases "sc + 1 \<ge> 3")
        case True
        with "1.prems" have "?run i" using eq by (auto split: if_splits)
        moreover have "repeats_loop p i sc = True"
          using True eq \<open>i < length p\<close> by (subst repeats_loop.simps) simp
        ultimately show ?thesis using split by blast
      next
        case False
        with "1.prems" have nr: "\<not> ?run i" and sc: "sc = 1" by (auto split: if_splits)
        have "repeats_loop p (i + 1) (sc + 1) = (\<exists>j. i + 1 \<le> j \<and> j < length p \<and> ?run j)"
          using "1.IH"(1)[OF \<open>i < length p\<close> eq False] "1.prems" eq sc by simp
        moreover have "repeats_loop p i sc = repeats_loop p (i + 1) (sc + 1)"
          using False eq \<open>i < length p\<close> by (subst repeats_loop.simps) simp
        ultimately show ?thesis using nr split by blast
      qed
    next
      case neq: False
      then have nr: "\<not> ?run i" by simp
      have "repeats_loop p (i + 1) 1 = (\<exists>j. i + 1 \<le> j \<and> j < length p \<and> ?run j)"
        using "1.IH"(2)[OF \<open>i < length p\<close> neq] "1.prems" neq by simp
      moreover have "repeats_loop p i sc = repeats_loop p (i + 1) 1"
        using neq \<open>i < length p\<close> by (subst repeats_loop.simps) simp
      ultimately show ?thesis using nr split by blast
    qed
  qed
qed

lemma allSame_loop_char: "allSame_loop p cs = (\<forall>c \<in> set cs. c = p ! 0)"
  by (induction cs) auto

lemma run_shift:
  "(\<exists>j::nat. 1 \<le> j \<and> j < n \<and> 2 \<le> j \<and> P j (j - 1) (j - 2)) = (\<exists>i. i + 2 < n \<and> P (i + 2) (i + 1) i)"
proof
  assume "\<exists>j. 1 \<le> j \<and> j < n \<and> 2 \<le> j \<and> P j (j - 1) (j - 2)"
  then obtain j where j: "j < n" "2 \<le> j" "P j (j - 1) (j - 2)" by blast
  then have "(j - 2) + 2 < n \<and> P ((j - 2) + 2) ((j - 2) + 1) (j - 2)"
    by (simp add: Suc_diff_Suc numeral_2_eq_2)
  then show "\<exists>i. i + 2 < n \<and> P (i + 2) (i + 1) i" by blast
next
  assume "\<exists>i. i + 2 < n \<and> P (i + 2) (i + 1) i"
  then obtain i where "i + 2 < n" "P (i + 2) (i + 1) i" by blast
  then have "1 \<le> i + 2 \<and> i + 2 < n \<and> 2 \<le> i + 2 \<and> P (i + 2) (i + 2 - 1) (i + 2 - 2)" by simp
  then show "\<exists>j. 1 \<le> j \<and> j < n \<and> 2 \<le> j \<and> P j (j - 1) (j - 2)" by blast
qed

lemma repeats_loop_run: "repeats_loop p 1 1 = has_run_of_three p"
  unfolding has_run_of_three_def
  apply (subst repeats_loop_char[of 1 1 p], simp, simp)
  apply (subst run_shift[of "length p" "\<lambda>a b c. p ! a = p ! b \<and> p ! b = p ! c"])
  by auto

lemma hasTooManyRepeats_char: "hasTooManyRepeats p = (has_run_of_three p \<or> all_identical p)"
  unfolding hasTooManyRepeats_def repeats_loop_run allSame_loop_char all_identical_def
  by auto

text \<open>
  Claim C8, as the code has it. \<open>isSequential\<close> is true exactly when every adjacent
  pair ascends by one or every adjacent pair descends by one; so it is true on every
  digit string whose digits are \<open>first + i\<close>, and on every one whose digits are
  \<open>first - i\<close>, whatever the length. A string of one character is always sequential.
  A string of two characters is sequential only when its two characters differ by
  exactly one: it does not satisfy a direction by its length alone.
\<close>

theorem isSequential_spec:
  "(isSequential p \<longleftrightarrow> ascending_by_one p \<or> descending_by_one p)
   \<and> (0 \<le> first \<and> first + int n \<le> 10 \<longrightarrow>
        digit_string (ascending_run first n) \<and> isSequential (ascending_run first n))
   \<and> (first \<le> 9 \<and> int n \<le> first + 1 \<longrightarrow>
        digit_string (descending_run first n) \<and> isSequential (descending_run first n))
   \<and> (length p = 1 \<longrightarrow> isSequential p)
   \<and> (length p = 2 \<longrightarrow>
        (isSequential p \<longleftrightarrow>
           char_int (p ! 1) = char_int (p ! 0) + 1 \<or> char_int (p ! 1) = char_int (p ! 0) - 1))"
proof (intro conjI impI)
  show "isSequential p \<longleftrightarrow> ascending_by_one p \<or> descending_by_one p"
    by (rule isSequential_char)
next
  assume "0 \<le> first \<and> first + int n \<le> 10"
  then show "digit_string (ascending_run first n)" "isSequential (ascending_run first n)"
    by (simp_all add: isSequential_char ascending_run_sequential ascending_run_digits)
next
  assume "first \<le> 9 \<and> int n \<le> first + 1"
  then show "digit_string (descending_run first n)" "isSequential (descending_run first n)"
    by (simp_all add: isSequential_char descending_run_sequential descending_run_digits)
next
  assume "length p = 1"
  then show "isSequential p"
    by (simp add: isSequential_char ascending_by_one_def)
next
  assume len: "length p = 2"
  have "\<And>i. (Suc i < 2) = (i = 0)" by auto
  with len show "isSequential p \<longleftrightarrow>
      char_int (p ! 1) = char_int (p ! 0) + 1 \<or> char_int (p ! 1) = char_int (p ! 0) - 1"
    by (simp add: isSequential_char ascending_by_one_def descending_by_one_def)
qed

theorem isSequential_spec_witness:
  "isSequential ''7'' \<and> isSequential (ascending_run 4 4) \<and> isSequential (descending_run 9 3)
   \<and> ascending_run 4 4 = ''4567'' \<and> descending_run 9 3 = ''987''
   \<and> length ''54'' = 2 \<and> isSequential ''54''"
proof -
  have runs: "ascending_run 4 4 = ''4567''" "descending_run 9 3 = ''987''"
    by code_simp+
  have two: "char_int (''54'' ! 1) = char_int (''54'' ! 0) - 1"
    by code_simp
  from isSequential_spec[of "''7''" 4 4]
  have one: "length ''7'' = 1 \<longrightarrow> isSequential ''7''"
    and up: "(0::int) \<le> 4 \<and> 4 + int 4 \<le> 10 \<longrightarrow> isSequential (ascending_run 4 4)"
    by blast+
  from isSequential_spec[of "''54''" 9 3]
  have down: "(9::int) \<le> 9 \<and> int 3 \<le> 9 + 1 \<longrightarrow> isSequential (descending_run 9 3)"
    and pair: "length ''54'' = 2 \<longrightarrow>
      (isSequential ''54'' \<longleftrightarrow>
         char_int (''54'' ! 1) = char_int (''54'' ! 0) + 1 \<or> char_int (''54'' ! 1) = char_int (''54'' ! 0) - 1)"
    by blast+
  from one have "isSequential ''7''" by simp
  moreover from up have "isSequential (ascending_run 4 4)" by simp
  moreover from down have "isSequential (descending_run 9 3)" by simp
  moreover from pair two have "isSequential ''54''" by simp
  ultimately show ?thesis using runs by simp
qed

text \<open>
  The two-character digit string \<open>13\<close> satisfies neither direction: the claim that
  two-character inputs trivially satisfy one direction fails on it.
\<close>

theorem isSequential_two_chars_counterexample:
  "digit_string ''13'' \<and> length ''13'' = 2 \<and> \<not> isSequential ''13''"
  by code_simp

text \<open>
  Claim C9. \<open>hasTooManyRepeats\<close> is true exactly when the string has three equal
  characters in a row or all its characters are the same.
\<close>

theorem hasTooManyRepeats_spec:
  "hasTooManyRepeats p \<longleftrightarrow> has_run_of_three p \<or> all_identical p"
  by (rule hasTooManyRepeats_char)

theorem hasTooManyRepeats_spec_witness:
  "hasTooManyRepeats ''1112'' \<and> has_run_of_three ''1112''
   \<and> hasTooManyRepeats ''55'' \<and> all_identical ''55''
   \<and> \<not> hasTooManyRepeats ''1121'' \<and> \<not> has_run_of_three ''1121'' \<and> \<not> all_identical ''1121''"
proof -
  have run: "has_run_of_three ''1112''"
    unfolding has_run_of_three_def by (rule exI[of _ 0]) simp
  have same: "all_identical ''55''"
    by (simp add: all_identical_def)
  have no: "\<not> hasTooManyRepeats ''1121''"
    by code_simp
  from run hasTooManyRepeats_spec[of "''1112''"] have "hasTooManyRepeats ''1112''" by blast
  moreover from same hasTooManyRepeats_spec[of "''55''"] have "hasTooManyRepeats ''55''" by blast
  moreover from no hasTooManyRepeats_spec[of "''1121''"]
  have "\<not> has_run_of_three ''1121'' \<and> \<not> all_identical ''1121''" by blast
  ultimately show ?thesis using run same no by blast
qed

section \<open>Obfuscation Codec: the transform undoes itself\<close>

lemma xor_byte: "((of_char a :: nat) XOR of_char b) mod 256 = of_char a XOR of_char b"
proof -
  have "take_bit 8 ((of_char a :: nat) XOR of_char b) = take_bit 8 (of_char a) XOR take_bit 8 (of_char b)"
    by (rule take_bit_xor)
  then show ?thesis by (simp add: take_bit_eq_mod)
qed

lemma xor_char_cancel: "xor_char (xor_char a b) b = a"
proof -
  have "of_char (xor_char a b) = (of_char a :: nat) XOR of_char b"
    by (simp add: xor_char_def xor_byte)
  then have "xor_char (xor_char a b) b = char_of (((of_char a :: nat) XOR of_char b) XOR of_char b)"
    by (simp add: xor_char_def)
  also have "((of_char a :: nat) XOR of_char b) XOR of_char b = of_char a"
    by (simp add: xor.assoc)
  finally show ?thesis by simp
qed

lemma obfuscate_from_twice: "obfuscate_from i (obfuscate_from i s) = s"
  by (induction s arbitrary: i) (simp_all add: xor_char_cancel)

lemma length_obfuscate_from: "length (obfuscate_from i s) = length s"
  by (induction s arbitrary: i) simp_all

lemma obfuscate_from_nth:
  "j < length s \<Longrightarrow> obfuscate_from i s ! j = xor_char (s ! j) (key ! ((i + j) mod length key))"
proof (induction s arbitrary: i j)
  case Nil
  then show ?case by simp
next
  case (Cons c cs)
  show ?case
  proof (cases j)
    case 0
    then show ?thesis by simp
  next
    case (Suc j')
    with Cons.prems have "j' < length cs" by simp
    from Cons.IH[OF this, of "i + 1"] Suc show ?thesis by simp
  qed
qed

text \<open>
  Claim C6. Decoding an encoded string gives the string back, the empty one included;
  the encoding keeps the length and replaces byte \<open>i\<close> by its exclusive or with the key
  byte \<open>i mod 13\<close>.
\<close>

theorem obfuscate_self_inverse:
  "deobfuscate (obfuscate x) = x
   \<and> length (obfuscate x) = length x
   \<and> (\<forall>i. i < length x \<longrightarrow> obfuscate x ! i = xor_char (x ! i) (key ! (i mod length key)))
   \<and> (\<forall>a b. of_char (xor_char a b) = (of_char a :: nat) XOR of_char b)"
  by (simp add: deobfuscate_def obfuscate_def obfuscate_from_twice length_obfuscate_from
        obfuscate_from_nth xor_char_def xor_byte)

theorem obfuscate_self_inverse_witness:
  "deobfuscate (obfuscate ''alice|1357'') = ''alice|1357''
   \<and> deobfuscate (obfuscate []) = []
   \<and> obfuscate ''alice|1357'' ! 5 = xor_char CHR ''|'' CHR ''n''"
proof -
  have k: "key ! (5 mod length key) = CHR ''n''"
    by code_simp
  from obfuscate_self_inverse[of "''alice|1357''"]
  have undo: "deobfuscate (obfuscate ''alice|1357'') = ''alice|1357''"
    and byte: "5 < length ''alice|1357'' \<longrightarrow>
      obfuscate ''alice|1357'' ! 5 = xor_char (''alice|1357'' ! 5) (key ! (5 mod length key))"
    by blast+
  from obfuscate_self_inverse[of "[]"] have none: "deobfuscate (obfuscate []) = []"
    by blast
  from byte k have "obfuscate ''alice|1357'' ! 5 = xor_char CHR ''|'' CHR ''n''"
    by simp
  with undo none show ?thesis by blast
qed

section \<open>PIN Generator: what a returned PIN satisfies\<close>

lemma length_draw_digits: "length (draw_digits src k n) = n"
  by (induction n arbitrary: k) simp_all

lemma draw_digits_digit_string:
  "\<forall>i. src i \<le> 9 \<Longrightarrow> digit_string (draw_digits src k n)"
proof (induction n arbitrary: k)
  case 0
  then show ?case by (simp add: digit_string_def)
next
  case (Suc n)
  from Suc.prems have "src k \<le> 9" by simp
  then have "isdigit (char_of (of_char CHR ''0'' + src k))"
    by (simp add: isdigit_def)
  with Suc show ?case by (simp add: digit_string_def)
qed

text \<open>The PIN a run returns is the candidate of one of its rounds, and that candidate
  passed the three checks.\<close>

lemma generatePin_returns_accepted:
  assumes "generatePin src k len = Some r"
  shows "\<exists>j. fst r = draw_pin src j len \<and> snd r = j + nat len
            \<and> \<not> isSequential (fst r) \<and> \<not> hasTooManyRepeats (fst r) \<and> fst r \<notin> set banned"
proof -
  define Q where "Q = (\<lambda>(src :: nat \<Rightarrow> nat) (k :: nat) (len :: int) (r :: string \<times> nat).
      \<exists>j. fst r = draw_pin src j len \<and> snd r = j + nat len
          \<and> \<not> isSequential (fst r) \<and> \<not> hasTooManyRepeats (fst r) \<and> fst r \<notin> set banned)"
  have "Q src k len r"
  proof (rule generatePin.raw_induct[OF _ assms])
    fix f :: "(nat \<Rightarrow> nat) \<Rightarrow> nat \<Rightarrow> int \<Rightarrow> (string \<times> nat) option"
      and src k len r
    assume IH: "\<And>src k len r. f src k len = Some r \<Longrightarrow> Q src k len r"
      and eq: "(if isSequential (draw_pin src k len) then f src (k + nat len) len
                else if hasTooManyRepeats (draw_pin src k len) then f src (k + nat len) len
                else if draw_pin src k len \<in> set banned then f src (k + nat len) len
                else Some (draw_pin src k len, k + nat len)) = Some r"
    show "Q src k len r"
    proof (cases "isSequential (draw_pin src k len) \<or> hasTooManyRepeats (draw_pin src k len)
                  \<or> draw_pin src k len \<in> set banned")
      case True
      with eq have "f src (k + nat len) len = Some r"
        by (simp split: if_splits)
      then have "Q src (k + nat len) len r" by (rule IH)
      then show ?thesis by (simp add: Q_def)
    next
      case False
      with eq have "r = (draw_pin src k len, k + nat len)"
        by simp
      with False show ?thesis unfolding Q_def by auto
    qed
  qed
  then show ?thesis by (simp add: Q_def)
qed

text \<open>A run returns as soon as a round draws an acceptable candidate.\<close>

lemma generatePin_returns:
  assumes "acceptable (draw_pin src (k + r * nat len) len)"
    and "\<forall>j<r. \<not> acceptable (draw_pin src (k + j * nat len) len)"
  shows "generatePin src k len = Some (draw_pin src (k + r * nat len) len, k + (r + 1) * nat len)"
  using assms
proof (induction r arbitrary: k)
  case 0
  then show ?case
    by (subst generatePin.simps) (auto simp: acceptable_def)
next
  case (Suc r)
  from Suc.prems(2) have first: "\<not> acceptable (draw_pin src k len)"
    by (metis add.right_neutral mult_zero_left zero_less_Suc)
  have "acceptable (draw_pin src (k + nat len + r * nat len) len)"
    using Suc.prems(1) by (simp add: algebra_simps)
  moreover have "\<forall>j<r. \<not> acceptable (draw_pin src (k + nat len + j * nat len) len)"
  proof (intro allI impI)
    fix j assume "j < r"
    then have "Suc j < Suc r" by simp
    with Suc.prems(2) have "\<not> acceptable (draw_pin src (k + Suc j * nat len) len)" by blast
    then show "\<not> acceptable (draw_pin src (k + nat len + j * nat len) len)"
      by (simp add: algebra_simps)
  qed
  ultimately have "generatePin src (k + nat len) len
      = Some (draw_pin src (k + nat len + r * nat len) len, k + nat len + (r + 1) * nat len)"
    by (rule Suc.IH)
  moreover have "generatePin src k len = generatePin src (k + nat len) len"
    using first by (subst generatePin.simps) (auto simp: acceptable_def)
  ultimately show ?case by (simp add: algebra_simps)
qed

text \<open>
  Claim C4. Whatever the draws and the target length, a PIN that \<open>generatePin\<close>
  returns has the target length, is not sequential, is not repeat-heavy and is not in
  the banned set; it is a digit string when every draw is a digit from 0 to 9, as the
  distribution \<^verbatim>\<open>digitDist(0, 9)\<close> gives them.
\<close>

theorem generatePin_spec:
  assumes "generatePin src k len = Some (p, k')"
  shows "length p = nat len \<and> \<not> isSequential p \<and> \<not> hasTooManyRepeats p \<and> p \<notin> set banned
         \<and> ((\<forall>i. src i \<le> 9) \<longrightarrow> digit_string p)
         \<and> banned = [''1234'', ''0000'', ''1111'', ''1212'', ''7777'', ''1004'', ''2000'', ''4321'', ''2580'']"
proof -
  from generatePin_returns_accepted[OF assms] obtain j where
    p: "p = draw_pin src j len" and ok: "\<not> isSequential p" "\<not> hasTooManyRepeats p" "p \<notin> set banned"
    by auto
  from p have "length p = nat len"
    by (simp add: draw_pin_def length_draw_digits)
  moreover from p have "(\<forall>i. src i \<le> 9) \<longrightarrow> digit_string p"
    by (simp add: draw_pin_def draw_digits_digit_string)
  ultimately show ?thesis using ok by (simp add: banned_def)
qed

text \<open>
  A run on the draws 1 2 3 4 5 9 2 7: the first candidate \<open>1234\<close> is sequential and
  rejected, the second, \<open>5927\<close>, is returned.
\<close>

theorem generatePin_spec_witness:
  "generatePin (\<lambda>i. [1, 2, 3, 4, 5, 9, 2, 7] ! i) 0 4 = Some (''5927'', 8)
   \<and> length ''5927'' = nat 4 \<and> \<not> isSequential ''5927'' \<and> \<not> hasTooManyRepeats ''5927''
   \<and> ''5927'' \<notin> set banned"
proof -
  let ?src = "\<lambda>i::nat. [1, 2, 3, 4, 5, 9, 2, 7::nat] ! i"
  have c0: "draw_pin ?src (0 + 0 * nat 4) 4 = ''1234''" and c1: "draw_pin ?src (0 + 1 * nat 4) 4 = ''5927''"
    by code_simp+
  have bad: "\<not> acceptable ''1234''" and good: "acceptable ''5927''"
    by code_simp+
  have "\<forall>j<1. \<not> acceptable (draw_pin ?src (0 + j * nat 4) 4)"
    using bad c0 by simp
  with good c1 have run: "generatePin ?src 0 4 = Some (''5927'', 8)"
    using generatePin_returns[of ?src 0 1 4] by simp
  from generatePin_spec[OF run] run show ?thesis by simp
qed

section \<open>Authentication and Lockout: the state machine\<close>

lemma cin_save [simp]: "cin (save e) = cin e"
  by (simp add: save_def)

lemma cin_updateUser [simp]: "cin (snd (updateUser e u)) = cin e"
  by (simp add: updateUser_def)

lemma fst_read_word: "fst (read_word e) = (case cin e of [] \<Rightarrow> [] | w # ws \<Rightarrow> w)"
  by (simp add: read_word_def split: list.splits)

lemma cin_read_word: "cin (snd (read_word e)) = drop 1 (cin e)"
  by (simp add: read_word_def split: list.splits)

text \<open>The two functions with their local variables written out.\<close>

lemma authenticate_unfold:
  "authenticate e user =
     (if locked user then (False, e, user)
      else if fst (read_word e) = pin user then
        (True,
         snd (updateUser (snd (read_word e)) (user\<lparr>wrongAttempts := 0\<rparr>)),
         user\<lparr>wrongAttempts := 0\<rparr>)
      else
        (False,
         snd (updateUser (snd (read_word e))
                (user\<lparr>wrongAttempts := wrongAttempts user + 1,
                       locked := (locked user \<or> MAX_WRONG_ATTEMPTS \<le>s wrongAttempts user + 1)\<rparr>)),
         user\<lparr>wrongAttempts := wrongAttempts user + 1,
               locked := (locked user \<or> MAX_WRONG_ATTEMPTS \<le>s wrongAttempts user + 1)\<rparr>))"
  by (cases user) (simp add: authenticate_def Let_def case_prod_beta)

lemma changePin_unfold:
  "changePin e user =
     (case authenticate e user of
        (ok, e1, user1) \<Rightarrow>
          if \<not> ok then (NotAuthenticated, e1, user1)
          else if length (fst (read_word e1)) \<noteq> length (pin user1)
            then (InvalidLength, snd (read_word e1), user1)
          else if isSequential (fst (read_word e1)) \<or> hasTooManyRepeats (fst (read_word e1))
            then (WeakPin, snd (read_word e1), user1)
          else
            (Changed,
             snd (updateUser (snd (read_word e1)) (user1\<lparr>pin := fst (read_word e1), wrongAttempts := 0\<rparr>)),
             user1\<lparr>pin := fst (read_word e1), wrongAttempts := 0\<rparr>))"
  by (simp add: changePin_def Let_def case_prod_beta)

lemma authenticate_locked: "locked u \<Longrightarrow> authenticate e u = (False, e, u)"
  by (simp add: authenticate_def)

lemma sint_succ:
  fixes w :: "32 word"
  assumes "sint w < 2 ^ 31 - 1"
  shows "sint (w + 1) = sint w + 1"
proof -
  have lo: "- (2 ^ 31) \<le> sint w"
    using sint_ge[of w] by simp
  have "sint (w + 1) = signed_take_bit 31 (sint w + 1)"
    by (simp add: sint_word_ariths)
  also have "\<dots> = sint w + 1"
    using lo assms by (simp add: signed_take_bit_int_eq_self)
  finally show ?thesis .
qed

text \<open>One wrong word on an unlocked account: the counter goes up by one and the
  account locks when the counter reaches the maximum.\<close>

lemma authenticate_wrong:
  assumes "\<not> locked u" "fst (read_word e) \<noteq> pin u"
  shows "fst (authenticate e u) = False"
    and "snd (snd (authenticate e u)) =
           u\<lparr>wrongAttempts := wrongAttempts u + 1,
             locked := (MAX_WRONG_ATTEMPTS \<le>s wrongAttempts u + 1)\<rparr>"
    and "cin (fst (snd (authenticate e u))) = drop 1 (cin e)"
  using assms by (simp_all add: authenticate_unfold cin_read_word)

text \<open>
  Claim C10. \<open>authenticate\<close> leaves \<open>username\<close>, \<open>pin\<close> and \<open>balance\<close> alone. A
  successful call changes the record only by setting \<open>wrongAttempts\<close> to 0; a failed call on
  an unlocked record changes it only by adding 1 to \<open>wrongAttempts\<close> and by setting
  \<open>locked\<close> when the new count has reached the maximum; a call on a locked record
  fails and changes nothing.
\<close>

theorem authenticate_frame:
  assumes "authenticate e u = (ok, e', u')"
  shows "username u' = username u \<and> pin u' = pin u \<and> balance u' = balance u
         \<and> (ok \<longrightarrow> u' = u\<lparr>wrongAttempts := 0\<rparr>)
         \<and> (\<not> ok \<and> \<not> locked u \<longrightarrow>
               u' = u\<lparr>wrongAttempts := wrongAttempts u + 1,
                      locked := (MAX_WRONG_ATTEMPTS \<le>s wrongAttempts u + 1)\<rparr>)
         \<and> (locked u \<longrightarrow> \<not> ok \<and> u' = u \<and> e' = e)"
  using assms by (auto simp: authenticate_unfold split: if_splits)

theorem authenticate_frame_witness:
  "snd (snd (authenticate
      \<lparr>users = [], db_file = None, cin = [''0000'']\<rparr>
      \<lparr>username = ''alice'', pin = ''5927'', balance = Finite 1000, wrongAttempts = 2, locked = False\<rparr>))
     = \<lparr>username = ''alice'', pin = ''5927'', balance = Finite 1000, wrongAttempts = 3, locked = True\<rparr>
   \<and> snd (snd (authenticate
      \<lparr>users = [], db_file = None, cin = [''5927'']\<rparr>
      \<lparr>username = ''alice'', pin = ''5927'', balance = Finite 1000, wrongAttempts = 2, locked = False\<rparr>))
     = \<lparr>username = ''alice'', pin = ''5927'', balance = Finite 1000, wrongAttempts = 0, locked = False\<rparr>"
proof -
  let ?u = "\<lparr>username = ''alice'', pin = ''5927'', balance = Finite 1000,
              wrongAttempts = 2 :: 32 word, locked = False\<rparr>"
  let ?e = "\<lparr>users = [], db_file = None, cin = [''0000'']\<rparr>"
  let ?e' = "\<lparr>users = [], db_file = None, cin = [''5927'']\<rparr>"
  have no: "fst (authenticate ?e ?u) = False" and yes: "fst (authenticate ?e' ?u) = True"
    by (simp_all add: authenticate_unfold read_word_def)
  have "authenticate ?e ?u = (fst (authenticate ?e ?u), fst (snd (authenticate ?e ?u)),
          snd (snd (authenticate ?e ?u)))"
    by simp
  from authenticate_frame[OF this] no
  have "snd (snd (authenticate ?e ?u)) = ?u\<lparr>wrongAttempts := wrongAttempts ?u + 1,
          locked := (MAX_WRONG_ATTEMPTS \<le>s wrongAttempts ?u + 1)\<rparr>"
    by simp
  moreover have "authenticate ?e' ?u = (fst (authenticate ?e' ?u), fst (snd (authenticate ?e' ?u)),
          snd (snd (authenticate ?e' ?u)))"
    by simp
  from authenticate_frame[OF this] yes
  have "snd (snd (authenticate ?e' ?u)) = ?u\<lparr>wrongAttempts := 0\<rparr>"
    by simp
  ultimately show ?thesis by (simp add: MAX_WRONG_ATTEMPTS_def)
qed

lemma authenticate_wrong_step:
  assumes "\<not> locked v" "cin e = w # ws" "w \<noteq> pin v"
    and "authenticate e v = (ok, e', v')"
  shows "\<not> ok" and "v' = v\<lparr>wrongAttempts := wrongAttempts v + 1,
                            locked := (MAX_WRONG_ATTEMPTS \<le>s wrongAttempts v + 1)\<rparr>"
    and "cin e' = ws"
proof -
  from assms(2,3) have w: "fst (read_word e) \<noteq> pin v"
    by (simp add: fst_read_word)
  from authenticate_wrong[OF assms(1) w] assms(2,4)
  show "\<not> ok" and "v' = v\<lparr>wrongAttempts := wrongAttempts v + 1,
                            locked := (MAX_WRONG_ATTEMPTS \<le>s wrongAttempts v + 1)\<rparr>"
    and "cin e' = ws"
    by simp_all
qed

lemma authenticate_locked_step:
  assumes "locked v" "authenticate e v = (ok, e', v')"
  shows "\<not> ok \<and> v' = v \<and> e' = e"
  using assms by (simp add: authenticate_locked)

lemma MAX_sle: "(MAX_WRONG_ATTEMPTS \<le>s w) = (3 \<le> sint w)"
  by (simp add: MAX_WRONG_ATTEMPTS_def word_sle_eq)

text \<open>
  Claim C1. Take an account that is not locked, whose counter is not negative (and
  below the largest \<^verbatim>\<open>int\<close>), three wrong words \<open>w1\<close>, \<open>w2\<close>, \<open>w3\<close> next on the
  input, and three calls of \<open>authenticate\<close> in a row. All three fail and the account
  ends locked, the counter at 3 when it started from 0, 1 or 2 (from 0 the lock comes
  with the third failure, not before). On a locked account every call fails at once:
  it returns \<open>False\<close>, leaves the record and the store as they were, and does not take
  a word from the input, whatever that word is, the right PIN included.
\<close>

theorem lockout_after_three_wrong:
  assumes nl: "\<not> locked u"
    and lo: "0 \<le> sint (wrongAttempts u)" and hi: "sint (wrongAttempts u) < 2 ^ 31 - 1"
    and inp: "cin e = w1 # w2 # w3 # rest"
    and wrong: "w1 \<noteq> pin u" "w2 \<noteq> pin u" "w3 \<noteq> pin u"
    and a1: "authenticate e u = (ok1, e1, u1)"
    and a2: "authenticate e1 u1 = (ok2, e2, u2)"
    and a3: "authenticate e2 u2 = (ok3, e3, u3)"
  shows "\<not> ok1 \<and> \<not> ok2 \<and> \<not> ok3 \<and> locked u3
         \<and> wrongAttempts u3 = (if sint (wrongAttempts u) \<le> 2 then 3 else wrongAttempts u + 1)
         \<and> (wrongAttempts u = 0 \<longrightarrow> \<not> locked u1 \<and> \<not> locked u2)
         \<and> authenticate (e3\<lparr>cin := pin u # ws\<rparr>) u3 = (False, e3\<lparr>cin := pin u # ws\<rparr>, u3)
         \<and> (\<forall>e' v. locked v \<longrightarrow> authenticate e' v = (False, e', v))"
proof -
  let ?n = "sint (wrongAttempts u)"
  note s1 = authenticate_wrong_step[OF nl inp wrong(1) a1]
  have n1: "sint (wrongAttempts u + 1) = ?n + 1"
    using hi by (rule sint_succ)
  have u1: "pin u1 = pin u" "wrongAttempts u1 = wrongAttempts u + 1" "locked u1 = (3 \<le> ?n + 1)"
    using s1(2) n1 by (simp_all add: MAX_sle)
  have general: "\<forall>e' v. locked v \<longrightarrow> authenticate e' v = (False, e', v)"
    by (simp add: authenticate_locked)
  have main: "\<not> ok2 \<and> \<not> ok3 \<and> locked u3
      \<and> wrongAttempts u3 = (if ?n \<le> 2 then 3 else wrongAttempts u + 1)
      \<and> (wrongAttempts u = 0 \<longrightarrow> \<not> locked u1 \<and> \<not> locked u2)"
  proof (cases "locked u1")
    case True
    from authenticate_locked_step[OF True a2] have r2: "\<not> ok2" "u2 = u1" "e2 = e1" by simp_all
    from authenticate_locked_step[OF _ a3] True r2 have r3: "\<not> ok3" "u3 = u1" by simp_all
    from True u1 have "2 \<le> ?n" by simp
    moreover have "?n = 2 \<Longrightarrow> wrongAttempts u + 1 = 3"
    proof -
      assume "?n = 2"
      then have "sint (wrongAttempts u) = sint (2 :: 32 word)" by simp
      then have "wrongAttempts u = 2" by (rule signed_word_eqI)
      then show ?thesis by simp
    qed
    moreover have "wrongAttempts u \<noteq> 0"
      using \<open>2 \<le> ?n\<close> by auto
    ultimately show ?thesis using r2 r3 True u1 by auto
  next
    case False
    with u1 have small: "?n + 1 < 3" by simp
    from wrong(2) u1 have w2: "w2 \<noteq> pin u1" by simp
    note s2 = authenticate_wrong_step[OF False s1(3) w2 a2]
    have n2: "sint (wrongAttempts u1 + 1) = ?n + 2"
      using sint_succ[of "wrongAttempts u1"] u1 n1 small by simp
    have u2: "pin u2 = pin u" "wrongAttempts u2 = wrongAttempts u + 1 + 1" "locked u2 = (3 \<le> ?n + 2)"
      using s2(2) n2 u1 by (simp_all add: MAX_sle)
    show ?thesis
    proof (cases "locked u2")
      case True
      from authenticate_locked_step[OF True a3] have r3: "\<not> ok3" "u3 = u2" by simp_all
      from True u2 small lo have "?n = 1" by simp
      then have "sint (wrongAttempts u) = sint (1 :: 32 word)" by simp
      then have "wrongAttempts u = 1" by (rule signed_word_eqI)
      with r3 s2(1) True u2 \<open>?n = 1\<close> show ?thesis by simp
    next
      case nl2: False
      with u2 small lo have "?n = 0" by simp
      then have "sint (wrongAttempts u) = sint (0 :: 32 word)" by simp
      then have z: "wrongAttempts u = 0" by (rule signed_word_eqI)
      from wrong(3) u2 have w3: "w3 \<noteq> pin u2" by simp
      note s3 = authenticate_wrong_step[OF nl2 s2(3) w3 a3]
      from s3(2) u2 z have "wrongAttempts u3 = 3" "locked u3"
        by (simp_all add: MAX_WRONG_ATTEMPTS_def)
      with s2(1) s3(1) False nl2 \<open>?n = 0\<close> show ?thesis by simp
    qed
  qed
  then have "locked u3" by simp
  then have "authenticate (e3\<lparr>cin := pin u # ws\<rparr>) u3 = (False, e3\<lparr>cin := pin u # ws\<rparr>, u3)"
    by (rule authenticate_locked)
  with s1(1) main general show ?thesis by blast
qed

text \<open>
  An account of the store with no failure yet, and \<open>0000\<close> entered three times against
  the PIN \<open>5927\<close>: the account is locked with the counter at 3, and the right PIN is
  then turned down without being read.
\<close>

theorem lockout_after_three_wrong_witness:
  "(case authenticate
           \<lparr>users = [(''alice'', \<lparr>username = ''alice'', pin = ''5927'', balance = Finite 1000,
                                   wrongAttempts = 0, locked = False\<rparr>)],
            db_file = None, cin = [''0000'', ''0000'', ''0000'']\<rparr>
           \<lparr>username = ''alice'', pin = ''5927'', balance = Finite 1000, wrongAttempts = 0, locked = False\<rparr>
    of (ok1, e1, u1) \<Rightarrow>
      (case authenticate e1 u1 of (ok2, e2, u2) \<Rightarrow>
        (case authenticate e2 u2 of (ok3, e3, u3) \<Rightarrow>
           \<not> ok1 \<and> \<not> ok2 \<and> \<not> ok3 \<and> \<not> locked u1 \<and> \<not> locked u2 \<and> locked u3
           \<and> wrongAttempts u3 = 3
           \<and> authenticate (e3\<lparr>cin := [''5927'']\<rparr>) u3 = (False, e3\<lparr>cin := [''5927'']\<rparr>, u3))))"
proof -
  let ?u = "\<lparr>username = ''alice'', pin = ''5927'', balance = Finite 1000,
              wrongAttempts = 0 :: 32 word, locked = False\<rparr>"
  let ?e = "\<lparr>users = [(''alice'', ?u)], db_file = None, cin = [''0000'', ''0000'', ''0000'']\<rparr>"
  obtain ok1 e1 u1 where a1: "authenticate ?e ?u = (ok1, e1, u1)"
    by (cases "authenticate ?e ?u") auto
  obtain ok2 e2 u2 where a2: "authenticate e1 u1 = (ok2, e2, u2)"
    by (cases "authenticate e1 u1") auto
  obtain ok3 e3 u3 where a3: "authenticate e2 u2 = (ok3, e3, u3)"
    by (cases "authenticate e2 u2") auto
  have "\<not> locked ?u" "0 \<le> sint (wrongAttempts ?u)" "sint (wrongAttempts ?u) < 2 ^ 31 - 1"
    "cin ?e = ''0000'' # ''0000'' # ''0000'' # []"
    "''0000'' \<noteq> pin ?u" "''0000'' \<noteq> pin ?u" "''0000'' \<noteq> pin ?u"
    by simp_all
  from lockout_after_three_wrong[OF this a1 a2 a3, of "[]"]
  show ?thesis by (simp add: a1 a2 a3)
qed

section \<open>PIN change\<close>

lemma map_of_update_same: "map_of (AList.update k v al) k = Some v"
  by (simp add: update_conv')

lemma updateUser_stored:
  assumes "exists e (username v)"
  shows "getUser (snd (updateUser e v)) (username v) = Some v"
    and "db_file (snd (updateUser e v)) = Some (save_loop (users (snd (updateUser e v))))"
    and "exists (snd (updateUser e v)) (username v)"
  using assms
  by (simp_all add: updateUser_def getUser_def save_def exists_def map_of_update_same)

lemma exists_cin [simp]: "exists (e\<lparr>cin := ws\<rparr>) k = exists e k"
  by (simp add: exists_def)

lemma exists_read_word [simp]: "exists (snd (read_word e)) k = exists e k"
  by (simp add: read_word_def split: list.splits)

lemma exists_updateUser: "exists e k \<Longrightarrow> exists (snd (updateUser e v)) k"
  by (auto simp: updateUser_def save_def exists_def update_conv')

text \<open>What \<open>save\<close> writes: one line for each record of the store, in the order of the
  store, each ended by a line feed; so the line of every stored record is in the file.\<close>

lemma save_loop_file_of: "save_loop ps = file_of (map (\<lambda>p. serialize (snd p)) ps)"
  by (induction ps) simp_all

lemma save_loop_holds:
  "map_of ps k = Some v \<Longrightarrow> \<exists>pre post. save_loop ps = pre @ serialize v @ [CHR 0x0A] @ post"
proof (induction ps)
  case Nil
  then show ?case by simp
next
  case (Cons p ps)
  show ?case
  proof (cases "fst p = k")
    case True
    with Cons.prems have "snd p = v" by (cases p) simp
    then have "save_loop (p # ps) = [] @ serialize v @ [CHR 0x0A] @ save_loop ps"
      by simp
    then show ?thesis by blast
  next
    case False
    with Cons.prems have "map_of ps k = Some v" by (cases p) simp
    from Cons.IH[OF this] obtain pre post
      where "save_loop ps = pre @ serialize v @ [CHR 0x0A] @ post" by blast
    then have "save_loop (p # ps)
        = (serialize (snd p) @ [CHR 0x0A] @ pre) @ serialize v @ [CHR 0x0A] @ post"
      by simp
    then show ?thesis by blast
  qed
qed

text \<open>
  Claim C5. Take a call of \<open>changePin\<close> with the words \<open>entered\<close> and \<open>newPin\<close> next
  on the input. It changes the PIN exactly when the account is not locked, \<open>entered\<close>
  is the current PIN, \<open>newPin\<close> has the length of the current PIN and is neither
  sequential nor repeat-heavy; membership in the banned set plays no part. When it
  does, the record holds \<open>newPin\<close> and a counter of 0, and for an account of the store the
  stored record is the new one and the file is written again: it holds one line for
  each record of the store, the line of the new record among them. On a locked account
  nothing changes.
\<close>

theorem changePin_spec:
  assumes inp: "cin e = entered # newPin # rest"
    and res: "changePin e u = (r, e', u')"
  shows "(r = Changed \<longleftrightarrow>
            \<not> locked u \<and> entered = pin u \<and> length newPin = length (pin u)
            \<and> \<not> isSequential newPin \<and> \<not> hasTooManyRepeats newPin)
         \<and> (r = Changed \<longrightarrow>
               u' = u\<lparr>pin := newPin, wrongAttempts := 0\<rparr> \<and> cin e' = rest
               \<and> (exists e (username u) \<longrightarrow>
                     getUser e' (username u) = Some u'
                     \<and> db_file e' = Some (file_of (map (\<lambda>p. serialize (snd p)) (users e')))
                     \<and> (\<exists>pre post. db_file e' = Some (pre @ serialize u' @ [CHR 0x0A] @ post))))
         \<and> (locked u \<longrightarrow> r = NotAuthenticated \<and> u' = u \<and> e' = e)"
proof (cases "locked u")
  case True
  then have "authenticate e u = (False, e, u)" by (rule authenticate_locked)
  with res True show ?thesis by (simp add: changePin_unfold)
next
  case False
  have first: "fst (read_word e) = entered" "cin (snd (read_word e)) = newPin # rest"
    using inp by (simp_all add: read_word_def)
  show ?thesis
  proof (cases "entered = pin u")
    case wrong: False
    with False first have "fst (authenticate e u) = False"
      by (simp add: authenticate_unfold)
    with res wrong False show ?thesis
      by (auto simp: changePin_unfold split: prod.splits)
  next
    case True
    define u1 where "u1 = u\<lparr>wrongAttempts := 0\<rparr>"
    define e1 where "e1 = snd (updateUser (snd (read_word e)) u1)"
    from True False first have auth: "authenticate e u = (True, e1, u1)"
      by (simp add: authenticate_unfold e1_def u1_def)
    have second: "fst (read_word e1) = newPin" "cin (snd (read_word e1)) = rest"
      using first(2) by (simp_all add: e1_def read_word_def)
    have u1: "pin u1 = pin u" "username u1 = username u"
      by (simp_all add: u1_def)
    show ?thesis
    proof (cases "length newPin = length (pin u) \<and> \<not> isSequential newPin \<and> \<not> hasTooManyRepeats newPin")
      case weak: False
      with res auth second u1 False True show ?thesis
        by (auto simp: changePin_unfold split: if_splits)
    next
      case good: True
      define u2 where "u2 = u1\<lparr>pin := newPin, wrongAttempts := 0\<rparr>"
      from res auth second u1 good
      have r: "r = Changed" and u': "u' = u2"
        and e': "e' = snd (updateUser (snd (read_word e1)) u2)"
        by (auto simp: changePin_unfold u2_def)
      have u2: "u2 = u\<lparr>pin := newPin, wrongAttempts := 0\<rparr>" "username u2 = username u"
        by (simp_all add: u2_def u1_def)
      have cin': "cin e' = rest"
        using e' second by simp
      have stored: "getUser e' (username u) = Some u'
          \<and> db_file e' = Some (file_of (map (\<lambda>p. serialize (snd p)) (users e')))
          \<and> (\<exists>pre post. db_file e' = Some (pre @ serialize u' @ [CHR 0x0A] @ post))"
        if ex: "exists e (username u)"
      proof -
        from ex have "exists e1 (username u)"
          unfolding e1_def by (intro exists_updateUser) simp
        then have "exists (snd (read_word e1)) (username u2)"
          using u2(2) by simp
        from updateUser_stored(1,2)[OF this]
        have got: "getUser e' (username u) = Some u'"
          and written: "db_file e' = Some (save_loop (users e'))"
          using e' u' u2(2) by simp_all
        from got have "map_of (users e') (username u) = Some u'"
          by (simp add: getUser_def)
        from save_loop_holds[OF this] obtain pre post
          where "save_loop (users e') = pre @ serialize u' @ [CHR 0x0A] @ post" by blast
        with written have "db_file e' = Some (pre @ serialize u' @ [CHR 0x0A] @ post)"
          by simp
        then have "\<exists>pre post. db_file e' = Some (pre @ serialize u' @ [CHR 0x0A] @ post)"
          by blast
        with got written show ?thesis
          by (simp add: save_loop_file_of)
      qed
      have cond: "r = Changed \<longleftrightarrow>
            \<not> locked u \<and> entered = pin u \<and> length newPin = length (pin u)
            \<and> \<not> isSequential newPin \<and> \<not> hasTooManyRepeats newPin"
        using r good True False by simp
      have rec: "u' = u\<lparr>pin := newPin, wrongAttempts := 0\<rparr>"
        using u' u2(1) by simp
      from cond rec cin' stored False show ?thesis by blast
    qed
  qed
qed

text \<open>
  The account \<open>bob\<close> of the store changes his PIN from \<open>5927\<close> to \<open>1212\<close>: a member
  of the banned set, of the right length, not sequential and not repeat-heavy. The
  file that is written holds the line of the new record, and loading it gives the new
  record back.
\<close>

theorem changePin_spec_witness:
  "''1212'' \<in> set banned
   \<and> fst (changePin
        \<lparr>users = [(''bob'', \<lparr>username = ''bob'', pin = ''5927'', balance = Finite 1000,
                              wrongAttempts = 1, locked = False\<rparr>)],
         db_file = None, cin = [''5927'', ''1212'']\<rparr>
        \<lparr>username = ''bob'', pin = ''5927'', balance = Finite 1000, wrongAttempts = 1, locked = False\<rparr>)
       = Changed
   \<and> snd (snd (changePin
        \<lparr>users = [(''bob'', \<lparr>username = ''bob'', pin = ''5927'', balance = Finite 1000,
                              wrongAttempts = 1, locked = False\<rparr>)],
         db_file = None, cin = [''5927'', ''1212'']\<rparr>
        \<lparr>username = ''bob'', pin = ''5927'', balance = Finite 1000, wrongAttempts = 1, locked = False\<rparr>))
       = \<lparr>username = ''bob'', pin = ''1212'', balance = Finite 1000, wrongAttempts = 0, locked = False\<rparr>
   \<and> getUser (fst (snd (changePin
        \<lparr>users = [(''bob'', \<lparr>username = ''bob'', pin = ''5927'', balance = Finite 1000,
                              wrongAttempts = 1, locked = False\<rparr>)],
         db_file = None, cin = [''5927'', ''1212'']\<rparr>
        \<lparr>username = ''bob'', pin = ''5927'', balance = Finite 1000, wrongAttempts = 1, locked = False\<rparr>)))
        ''bob''
       = Some \<lparr>username = ''bob'', pin = ''1212'', balance = Finite 1000, wrongAttempts = 0, locked = False\<rparr>
   \<and> db_file (fst (snd (changePin
        \<lparr>users = [(''bob'', \<lparr>username = ''bob'', pin = ''5927'', balance = Finite 1000,
                              wrongAttempts = 1, locked = False\<rparr>)],
         db_file = None, cin = [''5927'', ''1212'']\<rparr>
        \<lparr>username = ''bob'', pin = ''5927'', balance = Finite 1000, wrongAttempts = 1, locked = False\<rparr>)))
       = Some (serialize \<lparr>username = ''bob'', pin = ''1212'', balance = Finite 1000,
                          wrongAttempts = 0, locked = False\<rparr> @ [CHR 0x0A])
   \<and> users (load (fst (snd (changePin
        \<lparr>users = [(''bob'', \<lparr>username = ''bob'', pin = ''5927'', balance = Finite 1000,
                              wrongAttempts = 1, locked = False\<rparr>)],
         db_file = None, cin = [''5927'', ''1212'']\<rparr>
        \<lparr>username = ''bob'', pin = ''5927'', balance = Finite 1000, wrongAttempts = 1, locked = False\<rparr>))))
       = [(''bob'', \<lparr>username = ''bob'', pin = ''1212'', balance = Finite 1000,
                      wrongAttempts = 0, locked = False\<rparr>)]"
proof -
  let ?u = "\<lparr>username = ''bob'', pin = ''5927'', balance = Finite 1000,
              wrongAttempts = 1 :: 32 word, locked = False\<rparr>"
  let ?v = "\<lparr>username = ''bob'', pin = ''1212'', balance = Finite 1000,
              wrongAttempts = 0 :: 32 word, locked = False\<rparr>"
  let ?e = "\<lparr>users = [(''bob'', ?u)], db_file = None, cin = [''5927'', ''1212'']\<rparr>"
  have weak: "''1212'' \<in> set banned" "\<not> isSequential ''1212''" "\<not> hasTooManyRepeats ''1212''"
    by code_simp+
  have ex: "exists ?e (username ?u)"
    by (simp add: exists_def)
  have "changePin ?e ?u = (fst (changePin ?e ?u), fst (snd (changePin ?e ?u)), snd (snd (changePin ?e ?u)))"
    by simp
  from changePin_spec[OF _ this, of "''5927''" "''1212''" "[]"] weak ex
  have changed: "fst (changePin ?e ?u) = Changed"
    and rec: "snd (snd (changePin ?e ?u)) = ?v"
    and got: "getUser (fst (snd (changePin ?e ?u))) ''bob'' = Some (snd (snd (changePin ?e ?u)))"
    and written: "db_file (fst (snd (changePin ?e ?u)))
        = Some (file_of (map (\<lambda>p. serialize (snd p)) (users (fst (snd (changePin ?e ?u))))))"
    by simp_all
  have store: "users (fst (snd (changePin ?e ?u))) = [(''bob'', ?v)]"
    by code_simp
  have line: "db_file (fst (snd (changePin ?e ?u))) = Some (serialize ?v @ [CHR 0x0A])"
    using written by (simp add: store)
  have reload: "users (load (fst (snd (changePin ?e ?u)))) = [(''bob'', ?v)]"
    by code_simp
  from weak(1) changed rec got line reload show ?thesis
    by simp
qed

section \<open>Record Codec: printing and reading back\<close>

lemma getline_field:
  "d \<notin> set f \<Longrightarrow> getline (Some (f @ d # rest)) d old = (f, Some rest)"
proof -
  assume d: "d \<notin> set f"
  then have "takeWhile (\<lambda>c. c \<noteq> d) (f @ d # rest) = f"
    by (auto simp: takeWhile_tail)
  moreover from d have "dropWhile (\<lambda>c. c \<noteq> d) (f @ d # rest) = d # rest"
    by (auto simp: dropWhile_append3)
  ultimately show ?thesis by simp
qed

lemma of_char_digit_char: "0 \<le> d \<Longrightarrow> d \<le> 9 \<Longrightarrow> (of_char (digit_char d) :: int) = 48 + d"
  by (simp add: digit_char_def)

lemma digits_val_snoc: "digits_val (ds @ [c]) = 10 * digits_val ds + (of_char c - 48)"
  by (simp add: digits_val_def)

lemma show_unsigned_digits:
  "0 \<le> n \<Longrightarrow> list_all isdigit (show_unsigned n) \<and> show_unsigned n \<noteq> []
     \<and> digits_val (show_unsigned n) = n"
proof (induction n rule: show_unsigned.induct)
  case (1 n)
  show ?case
  proof (cases "n < 10")
    case True
    with "1.prems" have "isdigit (digit_char n)" "(of_char (digit_char n) :: int) = 48 + n"
      by (simp_all add: isdigit_digit_char of_char_digit_char)
    with True show ?thesis
      by (subst (1 2 3) show_unsigned.simps) (simp add: digits_val_def)
  next
    case False
    with "1.prems" have "0 \<le> n div 10" by simp
    from "1.IH"[OF False this]
    have IH: "list_all isdigit (show_unsigned (n div 10))" "digits_val (show_unsigned (n div 10)) = n div 10"
      by simp_all
    have m: "0 \<le> n mod 10" "n mod 10 \<le> 9" by simp_all
    then have "isdigit (digit_char (n mod 10))" "(of_char (digit_char (n mod 10)) :: int) = 48 + n mod 10"
      by (simp_all add: isdigit_digit_char of_char_digit_char)
    with False IH show ?thesis
      by (subst (1 2 3) show_unsigned.simps) (simp add: digits_val_snoc)
  qed
qed

lemma isdigit_not_special:
  "isdigit c \<Longrightarrow> c \<noteq> CHR ''|'' \<and> c \<noteq> CHR ''-'' \<and> c \<noteq> CHR ''+'' \<and> \<not> isspace c \<and> c \<noteq> CHR 0x0A"
  by (auto simp: isdigit_def isspace_def)

lemma show_unsigned_no_bar: "0 \<le> n \<Longrightarrow> CHR ''|'' \<notin> set (show_unsigned n)"
  using show_unsigned_digits[of n] isdigit_not_special by (auto simp: list_all_iff)

lemma show_int_no_bar: "CHR ''|'' \<notin> set (show_int i)"
  by (simp add: show_int_def show_unsigned_no_bar)

lemma show_fixed2_no_bar: "CHR ''|'' \<notin> set (show_fixed2 b)"
proof (cases b)
  case (Finite q)
  let ?n = "round_half_even (\<bar>q\<bar> * 100)"
  have "0 \<le> \<lfloor>\<bar>q\<bar> * 100\<rfloor>" by simp
  then have n: "0 \<le> ?n" by (simp add: round_half_even_def)
  then have "0 \<le> ?n div 100" by simp
  then have a: "CHR ''|'' \<notin> set (show_unsigned (?n div 100))" by (rule show_unsigned_no_bar)
  have "isdigit (digit_char (?n mod 100 div 10))" "isdigit (digit_char (?n mod 10))"
    by (rule isdigit_digit_char; simp)+
  then have "digit_char (?n mod 100 div 10) \<noteq> CHR ''|''" "digit_char (?n mod 10) \<noteq> CHR ''|''"
    using isdigit_not_special by blast+
  with a Finite show ?thesis by (simp add: show_fixed2_def)
next
  case (Infinity neg)
  then show ?thesis by (simp add: show_fixed2_def)
next
  case NaN
  then show ?thesis by (simp add: show_fixed2_def)
qed

text \<open>\<^verbatim>\<open>stoi\<close> reads back the decimal an \<^verbatim>\<open>int\<close> was printed as.\<close>

lemma stoi_show_int:
  fixes w :: "32 word"
  shows "stoi (show_int (sint w)) = Inr w"
proof (cases "sint w < 0")
  case True
  let ?ds = "show_unsigned (- sint w)"
  from True have pos: "0 \<le> - sint w" by simp
  note d = show_unsigned_digits[OF pos]
  have all: "takeWhile isdigit ?ds = ?ds"
    using d by (simp add: takeWhile_eq_all_conv list_all_iff)
  have "- (2 ^ 31) \<le> sint w" using sint_ge[of w] by simp
  then have range: "\<not> 2 ^ 31 < - sint w" by simp
  have "- of_int (- sint w) = (of_int (sint w) :: 32 word)" by simp
  also have "\<dots> = w" by simp
  finally have "(- of_int (- sint w) :: 32 word) = w" .
  with True d range show ?thesis
    by (simp add: stoi_def show_int_def isspace_def is_minus_def skip_sign_def all)
next
  case False
  let ?ds = "show_unsigned (sint w)"
  from False have pos: "0 \<le> sint w" by simp
  note d = show_unsigned_digits[OF pos]
  from d obtain c cs where cs: "?ds = c # cs" by (cases ?ds) auto
  with d have c: "isdigit c" by simp
  have all: "takeWhile isdigit ?ds = ?ds"
    using d by (simp add: takeWhile_eq_all_conv list_all_iff)
  have "sint w < 2 ^ 31" using sint_lt[of w] by simp
  then have range: "\<not> 2 ^ 31 \<le> sint w" by simp
  have first: "dropWhile isspace ?ds = ?ds" "is_minus ?ds = False" "skip_sign ?ds = ?ds"
    using cs c isdigit_not_special[of c] by (auto simp: is_minus_def skip_sign_def)
  have "(of_int (sint w) :: 32 word) = w" by simp
  with False d range show ?thesis
    by (simp add: stoi_def show_int_def first all)
qed

text \<open>
  The round trip of a record whose name and PIN hold no \<open>|\<close>: every field comes back
  but the balance, which is what \<^verbatim>\<open>stod\<close> reads from its two decimals.
\<close>

lemma deserialize_serialize_balance:
  assumes name: "CHR ''|'' \<notin> set (username u)" and pn: "CHR ''|'' \<notin> set (pin u)"
  shows "deserialize (serialize u)
         = (case stod (show_fixed2 (balance u)) of
              Inl e \<Rightarrow> Inl e
            | Inr x \<Rightarrow> Inr (u\<lparr>balance := x\<rparr>))"
proof -
  let ?b = "show_fixed2 (balance u)" and ?w = "show_int (sint (wrongAttempts u))"
  let ?l = "if locked u then ''1'' else ''0''"
  have plain: "deobfuscate (serialize u)
      = username u @ CHR ''|'' # pin u @ CHR ''|'' # ?b @ CHR ''|'' # ?w @ CHR ''|'' # ?l"
    by (simp add: serialize_def deobfuscate_def obfuscate_def obfuscate_from_twice)
  have g1: "getline (Some (username u @ CHR ''|'' # pin u @ CHR ''|'' # ?b @ CHR ''|'' # ?w @ CHR ''|'' # ?l))
              CHR ''|'' [] = (username u, Some (pin u @ CHR ''|'' # ?b @ CHR ''|'' # ?w @ CHR ''|'' # ?l))"
    using name by (rule getline_field)
  have g2: "getline (Some (pin u @ CHR ''|'' # ?b @ CHR ''|'' # ?w @ CHR ''|'' # ?l)) CHR ''|'' []
              = (pin u, Some (?b @ CHR ''|'' # ?w @ CHR ''|'' # ?l))"
    using pn by (rule getline_field)
  have g3: "getline (Some (?b @ CHR ''|'' # ?w @ CHR ''|'' # ?l)) CHR ''|'' []
              = (?b, Some (?w @ CHR ''|'' # ?l))"
    using show_fixed2_no_bar by (rule getline_field)
  have g4: "getline (Some (?w @ CHR ''|'' # ?l)) CHR ''|'' ?b = (?w, Some ?l)"
    using show_int_no_bar by (rule getline_field)
  have g5: "getline (Some ?l) CHR ''|'' ?w = (?l, None)"
    by simp
  have lk: "(?l = ''1'') = locked u" by simp
  show ?thesis
  proof (cases "stod ?b")
    case (Inl e)
    show ?thesis
      unfolding deserialize_def plain Let_def g1 prod.case g2 g3 Inl sum.case
      by simp
  next
    case (Inr x)
    show ?thesis
      unfolding deserialize_def plain Let_def g1 prod.case g2 g3 Inr sum.case g4 stoi_show_int g5 lk
      by simp
  qed
qed

lemma deserialize_serialize:
  assumes "CHR ''|'' \<notin> set (username u)" "CHR ''|'' \<notin> set (pin u)"
    and "stod (show_fixed2 (balance u)) = Inr (balance u)"
  shows "deserialize (serialize u) = Inr u"
  using deserialize_serialize_balance[OF assms(1,2)] assms(3) by simp

lemma digit_string_no_bar: "digit_string p \<Longrightarrow> CHR ''|'' \<notin> set p"
  using isdigit_not_special by (auto simp: digit_string_def list_all_iff)

section \<open>Record Codec: whole amounts come back\<close>

lemma round_half_even_of_int: "round_half_even (of_int m) = m"
  by (simp add: round_half_even_def)

lemma digit_char_zero: "digit_char 0 = CHR ''0''"
  by code_simp

lemma show_fixed2_whole:
  assumes "0 \<le> n"
  shows "show_fixed2 (Finite (of_int n)) = show_unsigned n @ ''.00''"
proof -
  have "\<bar>of_int n :: rat\<bar> * 100 = of_int (n * 100)"
    using assms by simp
  then have "round_half_even (\<bar>of_int n :: rat\<bar> * 100) = n * 100"
    by (simp only: round_half_even_of_int)
  then show ?thesis
    using assms by (simp add: show_fixed2_def digit_char_zero)
qed

lemma power_int_nonpos: "k \<le> 0 \<Longrightarrow> (2 :: rat) powi k = 1 / 2 ^ nat (- k)"
  by (cases "k = 0") (simp_all add: power_int_def field_simps)

lemma round_to_whole:
  assumes "k \<le> 0"
  shows "round_to k (of_int n) = of_int n"
proof -
  have "(of_int n :: rat) / 2 powi k = of_int (n * 2 ^ nat (- k))"
    using assms by (simp add: power_int_nonpos)
  then have "round_half_even ((of_int n :: rat) / 2 powi k) = n * 2 ^ nat (- k)"
    by (simp only: round_half_even_of_int)
  then show ?thesis
    using assms by (simp add: round_to_def power_int_nonpos)
qed

lemma ilog2_of_int:
  assumes "0 < n"
  shows "ilog2 (of_int n) = bitlen n - 1"
proof -
  have one: "bitlen 1 = 1"
    by (simp add: bitlen_def floorlog_def)
  from assms have pos: "1 \<le> bitlen n"
    using bitlen_ge_iff_power[of 1 n] by simp
  from bitlen_bounds[OF assms] have "2 ^ nat (bitlen n - 1) \<le> n" by simp
  then have "(2 :: rat) ^ nat (bitlen n - 1) \<le> of_int n"
    by (metis of_int_le_iff of_int_numeral of_int_power)
  with pos have "(2 :: rat) powi (bitlen n - 1) \<le> of_int n"
    by (simp add: power_int_def)
  then show ?thesis
    by (simp add: ilog2_def one)
qed

lemma round_binary64_whole:
  assumes "0 \<le> n" "n < 2 ^ 53"
  shows "round_binary64 (of_int n) = Inr (Finite (of_int n))"
proof (cases "n = 0")
  case True
  then show ?thesis by (simp add: round_binary64_def)
next
  case False
  with assms have pos: "0 < n" by simp
  let ?e = "bitlen n - 1"
  have e: "ilog2 (of_int n) = ?e"
    using pos by (rule ilog2_of_int)
  have "bitlen n \<le> 53"
    using assms by (simp add: bitlen_le_iff_power)
  moreover have "1 \<le> bitlen n"
    using pos bitlen_ge_iff_power[of 1 n] by simp
  ultimately have range: "0 \<le> ?e" "?e \<le> 52" by simp_all
  then have k: "max (?e - 52) (- 1074) = ?e - 52" by simp
  have r: "round_to (?e - 52) (of_int n) = of_int n"
    using range by (intro round_to_whole) simp
  have a: "\<bar>of_int n :: rat\<bar> = of_int n" using assms by simp
  from pos have nz: "(of_int n :: rat) \<noteq> 0" "\<not> (of_int n :: rat) < 0" by simp_all
  show ?thesis
    unfolding round_binary64_def Let_def a e k r
    using nz range by simp
qed

lemma digits_val_append_zeros: "digits_val (ds @ ''00'') = digits_val ds * 100"
  by (simp add: digits_val_def)

lemma tolower_digit: "isdigit c \<Longrightarrow> tolower c = c"
  by (simp add: tolower_def isdigit_def)

lemma stod_digits_point_zeros:
  assumes "list_all isdigit ds" "ds \<noteq> []"
  shows "stod (ds @ ''.00'') = round_binary64 (of_int (digits_val ds))"
proof -
  from assms obtain c cs where ds: "ds = c # cs" by (cases ds) auto
  with assms have c: "isdigit c" by simp
  have all: "\<forall>x \<in> set ds. isdigit x" using assms by (simp add: list_all_iff)
  have nd: "\<not> isdigit CHR ''.''" by (simp add: isdigit_def)
  have zero: "isdigit CHR ''0''" by (simp add: isdigit_def)
  let ?s = "ds @ ''.00''"
  have first: "dropWhile isspace ?s = ?s" "is_minus ?s = False" "skip_sign ?s = ?s"
    using ds c isdigit_not_special[of c] by (auto simp: is_minus_def skip_sign_def)
  have low: "tolower c = c" using c by (rule tolower_digit)
  have "c \<noteq> CHR ''i''" "c \<noteq> CHR ''n''" using c by (auto simp: isdigit_def)
  then have word: "map tolower (take 3 ?s) \<noteq> ''inf''" "map tolower (take 3 ?s) \<noteq> ''nan''"
    using ds low by auto
  have hex: "\<not> is_hex_float ?s"
  proof (cases cs)
    case Nil
    with ds show ?thesis by (simp add: is_hex_float_def tolower_def)
  next
    case (Cons c2 cs2)
    with ds assms have "isdigit c2" by simp
    then have "tolower c2 \<noteq> CHR ''x''" by (auto simp: tolower_digit isdigit_def)
    with Cons ds show ?thesis by (simp add: is_hex_float_def split: list.splits)
  qed
  have ip: "takeWhile isdigit ?s = ds"
    using all nd by (simp add: takeWhile_append2)
  have rest: "dropWhile isdigit ?s = ''.00''"
    using all nd by (simp add: dropWhile_append2)
  have dec: "dec_value ?s = Some (of_int (digits_val ds))"
    using assms(2) zero
    by (simp add: dec_value_def Let_def ip rest fraction_digits_def after_fraction_def
          exponent_part_def digits_val_append_zeros power_int_def power2_eq_square)
  show ?thesis
    unfolding stod_def Let_def first using word hex dec by simp
qed

text \<open>A balance that is a whole amount below \<open>2 ^ 53\<close> is read back as it was
  written.\<close>

lemma stod_show_fixed2_whole:
  assumes "0 \<le> n" "n < 2 ^ 53"
  shows "stod (show_fixed2 (Finite (of_int n))) = Inr (Finite (of_int n))"
proof -
  from show_unsigned_digits[OF assms(1)]
  have d: "list_all isdigit (show_unsigned n)" "show_unsigned n \<noteq> []" "digits_val (show_unsigned n) = n"
    by simp_all
  from stod_digits_point_zeros[OF d(1,2)] d(3)
  have "stod (show_unsigned n @ ''.00'') = round_binary64 (of_int n)" by simp
  with assms show ?thesis
    by (simp add: show_fixed2_whole round_binary64_whole)
qed

text \<open>
  Claim C2, as the code has it. A valid account comes back field for field exactly
  when its balance is the \<^verbatim>\<open>double\<close> that \<^verbatim>\<open>stod\<close> reads from its rendering with
  two decimals; every balance that is a whole amount below \<open>2 ^ 53\<close> is one. The
  rendering keeps two decimals only, so other balances come back rounded.
\<close>

theorem serialize_round_trip:
  assumes "valid_account u"
  shows "(deserialize (serialize u) = Inr u
           \<longleftrightarrow> stod (show_fixed2 (balance u)) = Inr (balance u))
         \<and> (0 \<le> n \<and> n < 2 ^ 53 \<and> balance u = Finite (of_int n) \<longrightarrow>
               deserialize (serialize u) = Inr u)"
proof -
  from assms have "CHR ''|'' \<notin> set (username u)" "CHR ''|'' \<notin> set (pin u)"
    by (simp_all add: valid_account_def digit_string_no_bar)
  note d = deserialize_serialize_balance[OF this]
  have exact: "deserialize (serialize u) = Inr u
      \<longleftrightarrow> stod (show_fixed2 (balance u)) = Inr (balance u)"
  proof (cases "stod (show_fixed2 (balance u))")
    case (Inl e)
    with d show ?thesis by simp
  next
    case (Inr x)
    have "(u\<lparr>balance := x\<rparr> = u) = (x = balance u)"
      by (cases u) auto
    with d Inr show ?thesis by simp
  qed
  moreover have "deserialize (serialize u) = Inr u"
    if "0 \<le> n \<and> n < 2 ^ 53 \<and> balance u = Finite (of_int n)"
    using that exact stod_show_fixed2_whole[of n] by simp
  ultimately show ?thesis by blast
qed

theorem serialize_round_trip_witness:
  "valid_account \<lparr>username = ''alice'', pin = ''5927'', balance = Finite 1000, wrongAttempts = 2, locked = False\<rparr>
   \<and> deserialize (serialize
        \<lparr>username = ''alice'', pin = ''5927'', balance = Finite 1000, wrongAttempts = 2, locked = False\<rparr>)
     = Inr \<lparr>username = ''alice'', pin = ''5927'', balance = Finite 1000, wrongAttempts = 2, locked = False\<rparr>"
proof -
  let ?u = "\<lparr>username = ''alice'', pin = ''5927'', balance = Finite 1000,
              wrongAttempts = 2 :: 32 word, locked = False\<rparr>"
  have v: "valid_account ?u"
    by code_simp
  have "stod (show_fixed2 (Finite 1000)) = Inr (Finite 1000)"
    by code_simp
  then have "stod (show_fixed2 (balance ?u)) = Inr (balance ?u)"
    by simp
  with serialize_round_trip[OF v, of 1000] v show ?thesis by simp
qed

text \<open>
  The valid account with the balance 0.0625 is written with the balance \<open>0.06\<close> and
  comes back with the \<^verbatim>\<open>double\<close> next to 0.06: the round trip changes the balance.
\<close>

theorem serialize_round_trip_counterexample:
  "valid_account \<lparr>username = ''alice'', pin = ''5927'', balance = Finite (1 / 16), wrongAttempts = 2, locked = False\<rparr>
   \<and> deserialize (serialize
        \<lparr>username = ''alice'', pin = ''5927'', balance = Finite (1 / 16), wrongAttempts = 2, locked = False\<rparr>)
     = Inr \<lparr>username = ''alice'', pin = ''5927'', balance = Finite (1080863910568919 / 18014398509481984),
            wrongAttempts = 2, locked = False\<rparr>
   \<and> deserialize (serialize
        \<lparr>username = ''alice'', pin = ''5927'', balance = Finite (1 / 16), wrongAttempts = 2, locked = False\<rparr>)
     \<noteq> Inr \<lparr>username = ''alice'', pin = ''5927'', balance = Finite (1 / 16), wrongAttempts = 2, locked = False\<rparr>"
proof -
  let ?u = "\<lparr>username = ''alice'', pin = ''5927'', balance = Finite (1 / 16),
              wrongAttempts = 2 :: 32 word, locked = False\<rparr>"
  have v: "valid_account ?u"
    by code_simp
  have d: "deserialize (serialize ?u)
      = Inr \<lparr>username = ''alice'', pin = ''5927'', balance = Finite (1080863910568919 / 18014398509481984),
             wrongAttempts = 2, locked = False\<rparr>"
    by code_simp
  have "(1080863910568919 / 18014398509481984 :: rat) \<noteq> 1 / 16"
    by simp
  with v d show ?thesis by simp
qed

section \<open>Record Codec: lines with too few fields\<close>

lemma obfuscate_deobfuscate: "deobfuscate (obfuscate s) = s"
  by (simp add: deobfuscate_def obfuscate_def obfuscate_from_twice)

lemma stod_empty: "stod [] = Inl invalid_argument"
  by (simp add: stod_def is_minus_def skip_sign_def is_hex_float_def dec_value_def
        fraction_digits_def)

text \<open>A line of one or two fields fails: the balance is read from an empty token.\<close>

lemma deserialize_one_field:
  "CHR ''|'' \<notin> set name \<Longrightarrow> deserialize (obfuscate name) = Inl invalid_argument"
  by (simp add: deserialize_def obfuscate_deobfuscate stod_empty)

lemma deserialize_two_fields:
  assumes "CHR ''|'' \<notin> set name" "CHR ''|'' \<notin> set pn"
  shows "deserialize (obfuscate (name @ CHR ''|'' # pn)) = Inl invalid_argument"
proof -
  have g1: "getline (Some (name @ CHR ''|'' # pn)) CHR ''|'' [] = (name, Some pn)"
    using assms(1) by (rule getline_field)
  have g2: "getline (Some pn) CHR ''|'' [] = (pn, None)"
    using assms(2) by simp
  show ?thesis
    unfolding deserialize_def obfuscate_deobfuscate Let_def g1 prod.case g2
    by (simp add: stod_empty)
qed

text \<open>
  A line of four fields is accepted whenever its balance and its counter parse; the
  lock flag is then read from the counter's token, which \<open>getline\<close> left in place.
\<close>

lemma deserialize_four_fields:
  assumes "CHR ''|'' \<notin> set name" "CHR ''|'' \<notin> set pn" "CHR ''|'' \<notin> set b" "CHR ''|'' \<notin> set w"
    and "stod b = Inr x" "stoi w = Inr y"
  shows "deserialize (obfuscate (name @ CHR ''|'' # pn @ CHR ''|'' # b @ CHR ''|'' # w))
         = Inr \<lparr>username = name, pin = pn, balance = x, wrongAttempts = y, locked = (w = ''1'')\<rparr>"
proof -
  have g1: "getline (Some (name @ CHR ''|'' # pn @ CHR ''|'' # b @ CHR ''|'' # w)) CHR ''|'' []
      = (name, Some (pn @ CHR ''|'' # b @ CHR ''|'' # w))"
    using assms(1) by (rule getline_field)
  have g2: "getline (Some (pn @ CHR ''|'' # b @ CHR ''|'' # w)) CHR ''|'' [] = (pn, Some (b @ CHR ''|'' # w))"
    using assms(2) by (rule getline_field)
  have g3: "getline (Some (b @ CHR ''|'' # w)) CHR ''|'' [] = (b, Some w)"
    using assms(3) by (rule getline_field)
  have g4: "getline (Some w) CHR ''|'' b = (w, None)"
    using assms(4) by simp
  have g5: "getline None CHR ''|'' w = (w, None)"
    by simp
  show ?thesis
    unfolding deserialize_def obfuscate_deobfuscate Let_def g1 prod.case g2 g3 assms(5,6) sum.case g4 g5
    by simp
qed

text \<open>A line of three fields is accepted when its balance token also reads as an
  \<^verbatim>\<open>int\<close>: the counter is taken from the balance.\<close>

lemma deserialize_three_fields:
  assumes "CHR ''|'' \<notin> set name" "CHR ''|'' \<notin> set pn" "CHR ''|'' \<notin> set b"
    and "stod b = Inr x" "stoi b = Inr y"
  shows "deserialize (obfuscate (name @ CHR ''|'' # pn @ CHR ''|'' # b))
         = Inr \<lparr>username = name, pin = pn, balance = x, wrongAttempts = y, locked = (b = ''1'')\<rparr>"
proof -
  have g1: "getline (Some (name @ CHR ''|'' # pn @ CHR ''|'' # b)) CHR ''|'' []
      = (name, Some (pn @ CHR ''|'' # b))"
    using assms(1) by (rule getline_field)
  have g2: "getline (Some (pn @ CHR ''|'' # b)) CHR ''|'' [] = (pn, Some b)"
    using assms(2) by (rule getline_field)
  have g3: "getline (Some b) CHR ''|'' [] = (b, None)"
    using assms(3) by simp
  have g4: "getline None CHR ''|'' b = (b, None)"
    by simp
  show ?thesis
    unfolding deserialize_def obfuscate_deobfuscate Let_def g1 prod.case g2 g3 assms(4,5) sum.case g4
    by simp
qed

text \<open>
  A line of five fields or more fails exactly when \<^verbatim>\<open>stod\<close> rejects the third
  field or \<^verbatim>\<open>stoi\<close> the fourth; what follows the fifth field is not read.
\<close>

lemma deserialize_five_fields:
  assumes "CHR ''|'' \<notin> set name" "CHR ''|'' \<notin> set pn" "CHR ''|'' \<notin> set b" "CHR ''|'' \<notin> set w"
  shows "deserialize (obfuscate (name @ CHR ''|'' # pn @ CHR ''|'' # b @ CHR ''|'' # w @ CHR ''|'' # rest))
         = (case stod b of
              Inl e \<Rightarrow> Inl e
            | Inr x \<Rightarrow>
                (case stoi w of
                   Inl e \<Rightarrow> Inl e
                 | Inr y \<Rightarrow> Inr \<lparr>username = name, pin = pn, balance = x, wrongAttempts = y,
                                 locked = (takeWhile (\<lambda>c. c \<noteq> CHR ''|'') rest = ''1'')\<rparr>))"
proof -
  have g1: "getline (Some (name @ CHR ''|'' # pn @ CHR ''|'' # b @ CHR ''|'' # w @ CHR ''|'' # rest)) CHR ''|'' []
      = (name, Some (pn @ CHR ''|'' # b @ CHR ''|'' # w @ CHR ''|'' # rest))"
    using assms(1) by (rule getline_field)
  have g2: "getline (Some (pn @ CHR ''|'' # b @ CHR ''|'' # w @ CHR ''|'' # rest)) CHR ''|'' []
      = (pn, Some (b @ CHR ''|'' # w @ CHR ''|'' # rest))"
    using assms(2) by (rule getline_field)
  have g3: "getline (Some (b @ CHR ''|'' # w @ CHR ''|'' # rest)) CHR ''|'' [] = (b, Some (w @ CHR ''|'' # rest))"
    using assms(3) by (rule getline_field)
  have g4: "getline (Some (w @ CHR ''|'' # rest)) CHR ''|'' b = (w, Some rest)"
    using assms(4) by (rule getline_field)
  obtain t s5 where g5: "getline (Some rest) CHR ''|'' w = (t, s5)"
    by (cases "getline (Some rest) CHR ''|'' w") auto
  have t: "t = takeWhile (\<lambda>c. c \<noteq> CHR ''|'') rest"
  proof (cases "CHR ''|'' \<in> set rest")
    case True
    with g5 show ?thesis by simp
  next
    case False
    then have "\<forall>c \<in> set rest. c \<noteq> CHR ''|''" by auto
    then have "takeWhile (\<lambda>c. c \<noteq> CHR ''|'') rest = rest"
      by (rule takeWhile_eq_all_conv[THEN iffD2])
    with False g5 show ?thesis by (simp del: takeWhile_eq_all_conv)
  qed
  show ?thesis
  proof (cases "stod b")
    case (Inl e)
    show ?thesis
      unfolding deserialize_def obfuscate_deobfuscate Let_def g1 prod.case g2 g3 Inl sum.case
      by simp
  next
    case x: (Inr x)
    show ?thesis
    proof (cases "stoi w")
      case (Inl e)
      show ?thesis
        unfolding deserialize_def obfuscate_deobfuscate Let_def g1 prod.case g2 g3 x sum.case g4 Inl
        by simp
    next
      case y: (Inr y)
      show ?thesis
        unfolding deserialize_def obfuscate_deobfuscate Let_def g1 prod.case g2 g3 x sum.case g4 y g5 t
        by simp
    qed
  qed
qed

text \<open>
  Claim C3 at lines that \<open>load\<close> reads from a file. The line \<open>bob|1234|10.00|1\<close>
  has four fields and no lock field; its encoding holds no line feed, so a file holds
  it as one line. \<open>deserialize\<close> does not fail on it but returns a locked account, the
  flag read from the counter's token, and \<open>load\<close> stores that account. The line
  \<open>bob|1234|10.00\<close> of three fields gives an account with ten failures, stored as
  well. Only the lines \<open>bob|1234\<close> and \<open>bob\<close> fail, and are passed over.
\<close>

theorem deserialize_short_lines:
  "field_count ''bob|1234|10.00|1'' = 4
   \<and> CHR 0x0A \<notin> set (obfuscate ''bob|1234|10.00|1'')
   \<and> deserialize (obfuscate ''bob|1234|10.00|1'')
       = Inr \<lparr>username = ''bob'', pin = ''1234'', balance = Finite 10, wrongAttempts = 1, locked = True\<rparr>
   \<and> users (load \<lparr>users = [], db_file = Some (file_of [obfuscate ''bob|1234|10.00|1'']), cin = []\<rparr>)
       = [(''bob'', \<lparr>username = ''bob'', pin = ''1234'', balance = Finite 10,
                      wrongAttempts = 1, locked = True\<rparr>)]
   \<and> field_count ''bob|1234|10.00'' = 3
   \<and> CHR 0x0A \<notin> set (obfuscate ''bob|1234|10.00'')
   \<and> deserialize (obfuscate ''bob|1234|10.00'')
       = Inr \<lparr>username = ''bob'', pin = ''1234'', balance = Finite 10, wrongAttempts = 10, locked = False\<rparr>
   \<and> users (load \<lparr>users = [], db_file = Some (file_of [obfuscate ''bob|1234|10.00'']), cin = []\<rparr>)
       = [(''bob'', \<lparr>username = ''bob'', pin = ''1234'', balance = Finite 10,
                      wrongAttempts = 10, locked = False\<rparr>)]
   \<and> deserialize (obfuscate ''bob|1234'') = Inl invalid_argument
   \<and> users (load \<lparr>users = [], db_file = Some (file_of [obfuscate ''bob|1234'']), cin = []\<rparr>) = []
   \<and> deserialize (obfuscate ''bob'') = Inl invalid_argument
   \<and> users (load \<lparr>users = [], db_file = Some (file_of [obfuscate ''bob'']), cin = []\<rparr>) = []"
proof -
  have b: "stod ''10.00'' = Inr (Finite 10)" and w: "stoi ''1'' = Inr 1" and bw: "stoi ''10.00'' = Inr 10"
    by code_simp+
  have four: "deserialize (obfuscate (''bob'' @ CHR ''|'' # ''1234'' @ CHR ''|'' # ''10.00'' @ CHR ''|'' # ''1''))
      = Inr \<lparr>username = ''bob'', pin = ''1234'', balance = Finite 10, wrongAttempts = 1, locked = (''1'' = ''1'')\<rparr>"
    by (rule deserialize_four_fields[OF _ _ _ _ b w]) simp_all
  have three: "deserialize (obfuscate (''bob'' @ CHR ''|'' # ''1234'' @ CHR ''|'' # ''10.00''))
      = Inr \<lparr>username = ''bob'', pin = ''1234'', balance = Finite 10, wrongAttempts = 10, locked = (''10.00'' = ''1'')\<rparr>"
    by (rule deserialize_three_fields[OF _ _ _ b bw]) simp_all
  have two: "deserialize (obfuscate (''bob'' @ CHR ''|'' # ''1234'')) = Inl invalid_argument"
    by (rule deserialize_two_fields) simp_all
  have one: "deserialize (obfuscate ''bob'') = Inl invalid_argument"
    by (rule deserialize_one_field) simp
  have nl4: "CHR 0x0A \<notin> set (obfuscate ''bob|1234|10.00|1'')"
    and nl3: "CHR 0x0A \<notin> set (obfuscate ''bob|1234|10.00'')"
    by code_simp+
  have l4: "users (load \<lparr>users = [], db_file = Some (file_of [obfuscate ''bob|1234|10.00|1'']), cin = []\<rparr>)
      = [(''bob'', \<lparr>username = ''bob'', pin = ''1234'', balance = Finite 10,
                     wrongAttempts = 1, locked = True\<rparr>)]"
    by code_simp
  have l3: "users (load \<lparr>users = [], db_file = Some (file_of [obfuscate ''bob|1234|10.00'']), cin = []\<rparr>)
      = [(''bob'', \<lparr>username = ''bob'', pin = ''1234'', balance = Finite 10,
                     wrongAttempts = 10, locked = False\<rparr>)]"
    by code_simp
  have l2: "users (load \<lparr>users = [], db_file = Some (file_of [obfuscate ''bob|1234'']), cin = []\<rparr>) = []"
    by code_simp
  have l1: "users (load \<lparr>users = [], db_file = Some (file_of [obfuscate ''bob'']), cin = []\<rparr>) = []"
    by code_simp
  have f4: "field_count ''bob|1234|10.00|1'' = 4" and f3: "field_count ''bob|1234|10.00'' = 3"
    by (simp_all add: field_count_def)
  from four have four': "deserialize (obfuscate ''bob|1234|10.00|1'')
      = Inr \<lparr>username = ''bob'', pin = ''1234'', balance = Finite 10, wrongAttempts = 1, locked = True\<rparr>"
    by simp
  from three have three': "deserialize (obfuscate ''bob|1234|10.00'')
      = Inr \<lparr>username = ''bob'', pin = ''1234'', balance = Finite 10, wrongAttempts = 10, locked = False\<rparr>"
    by simp
  from two have two': "deserialize (obfuscate ''bob|1234'') = Inl invalid_argument"
    by simp
  show ?thesis
    by (intro conjI f4 nl4 four' l4 f3 nl3 three' l3 two' l2 one l1)
qed

section \<open>Account Store: loading a file\<close>

lemma file_lines_line:
  "CHR 0x0A \<notin> set l \<Longrightarrow> file_lines cur (l @ CHR 0x0A # rest) = (cur @ l) # file_lines [] rest"
  by (induction l arbitrary: cur) auto

lemma file_lines_file_of:
  "\<forall>l \<in> set ls. CHR 0x0A \<notin> set l \<Longrightarrow> file_lines [] (file_of ls) = ls"
proof (induction ls)
  case Nil
  then show ?case by simp
next
  case (Cons l ls)
  then have "file_lines [] (l @ CHR 0x0A # file_of ls) = ([] @ l) # file_lines [] (file_of ls)"
    by (intro file_lines_line) simp
  with Cons show ?case by simp
qed

lemma deserialize_empty: "deserialize [] = Inl invalid_argument"
  by (simp add: deserialize_def deobfuscate_def obfuscate_def stod_empty)

text \<open>The loop passes over every line that does not deserialize.\<close>

lemma load_loop_filter:
  "load_loop us ls = load_loop us (filter (\<lambda>l. \<not> isl (deserialize l)) ls)"
proof (induction ls arbitrary: us)
  case Nil
  then show ?case by simp
next
  case (Cons l ls)
  show ?case
  proof (cases "deserialize l")
    case (Inl err)
    with Cons show ?thesis by simp
  next
    case (Inr acct)
    then have "l \<noteq> []" using deserialize_empty by auto
    with Inr Cons show ?thesis by simp
  qed
qed

lemma update_fresh: "k \<notin> fst ` set al \<Longrightarrow> AList.update k v al = al @ [(k, v)]"
  by (induction al) auto

text \<open>Lines that all deserialize, to accounts of different names, are stored in the
  order of the file.\<close>

lemma load_loop_valid:
  assumes "map deserialize ls = map Inr accts"
    and "distinct (map fst us @ map username accts)"
  shows "load_loop us ls = us @ map (\<lambda>a. (username a, a)) accts"
  using assms
proof (induction ls arbitrary: us accts)
  case Nil
  then show ?case by simp
next
  case (Cons l ls)
  from Cons.prems(1) obtain a rest where accts: "accts = a # rest"
    and l: "deserialize l = Inr a" and ls: "map deserialize ls = map Inr rest"
    by (cases accts) auto
  from l have ne: "l \<noteq> []" using deserialize_empty by auto
  from Cons.prems(2) accts have fresh: "username a \<notin> fst ` set us"
    by auto
  then have upd: "AList.update (username a) a us = us @ [(username a, a)]"
    by (rule update_fresh)
  from Cons.prems(2) accts have "distinct (map fst (us @ [(username a, a)]) @ map username rest)"
    by auto
  from Cons.IH[OF ls this] have "load_loop (us @ [(username a, a)]) ls
      = (us @ [(username a, a)]) @ map (\<lambda>a. (username a, a)) rest" .
  with l ne upd accts show ?case by simp
qed

lemma users_load_file_of:
  assumes "\<forall>l \<in> set ls. CHR 0x0A \<notin> set l"
  shows "users (load (e\<lparr>db_file := Some (file_of ls)\<rparr>)) = load_loop [] ls"
  using file_lines_file_of[OF assms] by (simp add: load_def)

text \<open>
  Claim C7. Load a file of lines. Every line that fails to deserialize is passed
  over and the others are loaded: the store is the one the file without those lines
  gives. So one failing line \<open>bad\<close> between the lines \<open>before\<close> and \<open>after\<close> changes
  nothing, and when the other lines deserialize to accounts of different names the
  store holds exactly those accounts (four accounts for a failing line among five
  lines).
\<close>

theorem load_skips_malformed_lines:
  assumes "\<forall>l \<in> set (before @ bad # after). CHR 0x0A \<notin> set l"
    and "deserialize bad = Inl err"
  shows "users (load (e\<lparr>db_file := Some (file_of (before @ bad # after))\<rparr>))
           = users (load (e\<lparr>db_file := Some (file_of (before @ after))\<rparr>))
         \<and> users (load (e\<lparr>db_file := Some (file_of (before @ bad # after))\<rparr>))
           = users (load (e\<lparr>db_file := Some (file_of
               (filter (\<lambda>l. \<not> isl (deserialize l)) (before @ bad # after)))\<rparr>))
         \<and> (map deserialize (before @ after) = map Inr accts \<and> distinct (map username accts) \<longrightarrow>
               users (load (e\<lparr>db_file := Some (file_of (before @ bad # after))\<rparr>))
                 = map (\<lambda>a. (username a, a)) accts)"
proof -
  let ?all = "before @ bad # after" and ?good = "\<lambda>l. \<not> isl (deserialize l)"
  from assms(1) have nl: "\<forall>l \<in> set (before @ after). CHR 0x0A \<notin> set l"
    and nlf: "\<forall>l \<in> set (filter ?good ?all). CHR 0x0A \<notin> set l"
    by auto
  have all: "users (load (e\<lparr>db_file := Some (file_of ?all)\<rparr>)) = load_loop [] ?all"
    using assms(1) by (rule users_load_file_of)
  have rest: "users (load (e\<lparr>db_file := Some (file_of (before @ after))\<rparr>)) = load_loop [] (before @ after)"
    using nl by (rule users_load_file_of)
  have filtered: "users (load (e\<lparr>db_file := Some (file_of (filter ?good ?all))\<rparr>))
      = load_loop [] (filter ?good ?all)"
    using nlf by (rule users_load_file_of)
  have drop: "filter ?good ?all = filter ?good (before @ after)"
    using assms(2) by simp
  have skip: "load_loop [] ?all = load_loop [] (before @ after)"
    using load_loop_filter[of "[]" ?all] load_loop_filter[of "[]" "before @ after"] drop by simp
  have valid: "load_loop [] (before @ after) = map (\<lambda>a. (username a, a)) accts"
    if "map deserialize (before @ after) = map Inr accts" "distinct (map username accts)"
    using load_loop_valid[of "before @ after" accts "[]"] that by simp
  from all rest filtered skip valid load_loop_filter[of "[]" ?all] show ?thesis
    by simp
qed

text \<open>
  A file of five lines: the accounts \<open>bob\<close>, \<open>carol\<close>, \<open>dave\<close> and \<open>frank\<close>, and
  between them a line whose balance is not a number. The store holds the four
  accounts.
\<close>

theorem load_skips_malformed_lines_witness:
  "users (load \<lparr>users = [], db_file = Some (file_of
       [serialize (fresh_account ''bob'' ''5927''), serialize (fresh_account ''carol'' ''1357''),
        obfuscate ''eve|1357|abc|0|0'',
        serialize (fresh_account ''dave'' ''2468''), serialize (fresh_account ''frank'' ''9053'')]),
       cin = []\<rparr>)
   = [(''bob'', fresh_account ''bob'' ''5927''), (''carol'', fresh_account ''carol'' ''1357''),
      (''dave'', fresh_account ''dave'' ''2468''), (''frank'', fresh_account ''frank'' ''9053'')]"
proof -
  let ?b = "fresh_account ''bob'' ''5927''" and ?c = "fresh_account ''carol'' ''1357''"
  let ?d = "fresh_account ''dave'' ''2468''" and ?f = "fresh_account ''frank'' ''9053''"
  let ?bad = "obfuscate ''eve|1357|abc|0|0''"
  have nl: "\<forall>l \<in> set ([serialize ?b, serialize ?c] @ ?bad # [serialize ?d, serialize ?f]). CHR 0x0A \<notin> set l"
    by code_simp
  have bad: "deserialize ?bad = Inl invalid_argument"
    by code_simp
  have bal: "stod (show_fixed2 (Finite 1000)) = Inr (Finite 1000)"
    by code_simp
  have again: "deserialize (serialize (fresh_account n p)) = Inr (fresh_account n p)"
    if "CHR ''|'' \<notin> set n" "CHR ''|'' \<notin> set p" for n p
    using that bal by (intro deserialize_serialize) (simp_all add: fresh_account_def)
  have ds: "map deserialize ([serialize ?b, serialize ?c] @ [serialize ?d, serialize ?f])
      = map Inr [?b, ?c, ?d, ?f]"
    by (simp add: again)
  have name: "username (fresh_account n p) = n" for n p
    by (simp add: fresh_account_def)
  have names: "distinct (map username [?b, ?c, ?d, ?f])"
    by (simp add: name)
  let ?e = "\<lparr>users = [], db_file = None, cin = []\<rparr>"
  from load_skips_malformed_lines[OF nl bad, of ?e "[?b, ?c, ?d, ?f]"]
  have "map deserialize ([serialize ?b, serialize ?c] @ [serialize ?d, serialize ?f]) = map Inr [?b, ?c, ?d, ?f]
        \<and> distinct (map username [?b, ?c, ?d, ?f]) \<longrightarrow>
      users (load (?e\<lparr>db_file := Some (file_of ([serialize ?b, serialize ?c] @ ?bad # [serialize ?d, serialize ?f]))\<rparr>))
        = map (\<lambda>a. (username a, a)) [?b, ?c, ?d, ?f]"
    by blast
  with ds names
  have "users (load (?e\<lparr>db_file := Some (file_of ([serialize ?b, serialize ?c] @ ?bad # [serialize ?d, serialize ?f]))\<rparr>))
        = map (\<lambda>a. (username a, a)) [?b, ?c, ?d, ?f]"
    by blast
  then show ?thesis by (simp add: name)
qed

text \<open>
  Not every line that \<open>save\<close> writes is read back as one line. The exclusive or with
  the key turns the third letter of \<open>alice\<close> into a line feed, so the loop reads her
  record as two lines; neither deserializes and the store that is loaded is empty.
\<close>

lemma save_load_line_feed:
  "CHR 0x0A \<in> set (serialize (fresh_account ''alice'' ''5927''))
   \<and> users (load (save \<lparr>users = [(''alice'', fresh_account ''alice'' ''5927'')],
                          db_file = None, cin = []\<rparr>)) = []"
  by code_simp

end
